theory Spec2Isabelle
  imports Main "HOL-Library.Word"
begin

unbundle bit_operations_syntax

section \<open>Typed arrays and views\<close>

text \<open>
  The JavaScript of \<^verbatim>\<open>nassh_buffer.js\<close> keeps one \<^verbatim>\<open>ArrayBuffer\<close> (\<^verbatim>\<open>buffer_\<close>), a
  \<^verbatim>\<open>Uint8Array\<close> over all of it (\<^verbatim>\<open>u8_\<close>) and two more \<^verbatim>\<open>Uint8Array\<close> views into the same
  storage (\<^verbatim>\<open>free_\<close>, \<^verbatim>\<open>queued_\<close>). The storage is a list of bytes; a view is its
  \<^verbatim>\<open>byteOffset\<close> and its \<^verbatim>\<open>length\<close> (named \<open>view_length\<close> here, \<open>length\<close> being the list
  function of HOL). Lengths and indices that the callers pass are JavaScript numbers and are
  taken to be integers, of either sign.
\<close>

type_synonym byte = "8 word"

datatype error = RangeError

record view =
  byteOffset :: nat
  view_length :: nat

text \<open>A \<^verbatim>\<open>Uint8Array\<close> over a whole \<^verbatim>\<open>ArrayBuffer\<close>: \<^verbatim>\<open>new Uint8Array(buffer)\<close>.\<close>

definition Uint8Array :: "byte list \<Rightarrow> view" where
  "Uint8Array store = \<lparr>byteOffset = 0, view_length = length store\<rparr>"

text \<open>
  The relative index of \<^verbatim>\<open>TypedArray.prototype.subarray\<close>: a negative index counts from
  the end of the view, and the result is clamped to \<open>0 .. length\<close>.
\<close>

definition relative_index :: "int \<Rightarrow> nat \<Rightarrow> nat" where
  "relative_index i n = (if i < 0 then nat (max (int n + i) 0) else min (nat i) n)"

text \<open>\<^verbatim>\<open>view.subarray(begin, end)\<close>: a view on the same storage.\<close>

definition subarray :: "view \<Rightarrow> int \<Rightarrow> int \<Rightarrow> view" where
  "subarray v start stop =
     (let b = relative_index start (view_length v);
          e = relative_index stop (view_length v)
      in \<lparr>byteOffset = byteOffset v + b, view_length = e - b\<rparr>)"

text \<open>\<^verbatim>\<open>view.subarray(begin)\<close>: the end defaults to the length of the view.\<close>

definition subarray_from :: "view \<Rightarrow> int \<Rightarrow> view" where
  "subarray_from v start = subarray v start (int (view_length v))"

text \<open>The bytes a view shows, read from the storage it points into.\<close>

definition view_bytes :: "byte list \<Rightarrow> view \<Rightarrow> byte list" where
  "view_bytes store v = take (view_length v) (drop (byteOffset v) store)"

text \<open>
  \<^verbatim>\<open>target.set(source)\<close>: copies the source bytes to the start of the target view, and
  throws a \<^verbatim>\<open>RangeError\<close> when the source is longer than the target. When source and
  target share storage the source is read before anything is written, which is what a
  function on lists does.
\<close>

definition set_bytes :: "byte list \<Rightarrow> view \<Rightarrow> byte list \<Rightarrow> error + byte list" where
  "set_bytes store target src =
     (if view_length target < length src then Inl RangeError
      else Inr (take (byteOffset target) store @ src @
                drop (byteOffset target + length src) store))"

section \<open>nassh.Buffer\<close>

text \<open>
  The fields of \<^verbatim>\<open>nassh.Buffer\<close>. \<open>u8\<close> is the storage: \<^verbatim>\<open>buffer_\<close> and \<^verbatim>\<open>u8_\<close> are always
  replaced together and \<^verbatim>\<open>buffer_.byteLength = u8_.length\<close>. \<open>readCount\<close> is an integer: the
  code subtracts from it without a check.
\<close>

record Buffer =
  u8 :: "byte list"
  free :: view
  queued :: view
  readCount :: int
  autoack :: bool

definition byteLength :: "Buffer \<Rightarrow> nat" where
  "byteLength b = length (u8 b)"

text \<open>\<^verbatim>\<open>new ArrayBuffer(size)\<close> is zero-filled.\<close>

definition ArrayBuffer :: "nat \<Rightarrow> byte list" where
  "ArrayBuffer n = replicate n 0"

text \<open>The constructor \<^verbatim>\<open>nassh.Buffer(autoack=false)\<close>.\<close>

definition new_Buffer :: "bool \<Rightarrow> Buffer" where
  "new_Buffer aa =
     (let store = ArrayBuffer (32 * 1024)
      in \<lparr>u8 = store,
          free = subarray_from (Uint8Array store) 0,
          queued = subarray (Uint8Array store) 0 0,
          readCount = 0,
          autoack = aa\<rparr>)"

definition Buffer_getQueuedBytes :: "Buffer \<Rightarrow> int" where
  "Buffer_getQueuedBytes b = int (view_length (queued b)) - readCount b"

text \<open>
  The body of \<^verbatim>\<open>if (this.free_.length < buffer.length)\<close> in \<^verbatim>\<open>write\<close>, for a buffer of \<open>n\<close>
  bytes: a larger storage when the present one cannot hold everything, then the queued
  bytes are moved to the front.
\<close>

definition write_make_room :: "Buffer \<Rightarrow> nat \<Rightarrow> error + Buffer" where
  "write_make_room b n =
     (let store = (if length (u8 b) < view_length (queued b) + n
                   then ArrayBuffer (((view_length (queued b) + n) div 1024 + 1) * 1024)
                   else u8 b)
      in case set_bytes store (Uint8Array store) (view_bytes (u8 b) (queued b)) of
           Inl e \<Rightarrow> Inl e
         | Inr store' \<Rightarrow>
             (let queued' = subarray (Uint8Array store') 0 (int (view_length (queued b)))
              in Inr (b\<lparr>u8 := store',
                       queued := queued',
                       free := subarray_from (Uint8Array store') (int (view_length queued'))\<rparr>)))"

text \<open>
  The rest of \<^verbatim>\<open>write\<close>: the bytes are copied into the free view, which then starts after
  them, and the queued view is taken again from \<^verbatim>\<open>u8_\<close>, longer by the bytes written.
\<close>

definition write_append :: "Buffer \<Rightarrow> byte list \<Rightarrow> error + Buffer" where
  "write_append b1 buffer =
     (case set_bytes (u8 b1) (free b1) buffer of
        Inl e \<Rightarrow> Inl e
      | Inr store \<Rightarrow>
          Inr (b1\<lparr>u8 := store,
                  free := subarray_from (free b1) (int (length buffer)),
                  queued := subarray (Uint8Array store)
                    (int (byteOffset (queued b1)))
                    (int (byteOffset (queued b1) + view_length (queued b1)
                          + length buffer))\<rparr>))"

text \<open>
  \<^verbatim>\<open>write(buffer)\<close>. The argument is a list of bytes, so the \<^verbatim>\<open>Invalid argument type\<close> error
  of the source has no input here.
\<close>

definition Buffer_write :: "Buffer \<Rightarrow> byte list \<Rightarrow> error + Buffer" where
  "Buffer_write b buffer =
     (case (if view_length (free b) < length buffer
            then write_make_room b (length buffer) else Inr b) of
        Inl e \<Rightarrow> Inl e
      | Inr b1 \<Rightarrow> write_append b1 buffer)"

text \<open>\<^verbatim>\<open>ack(length)\<close>.\<close>

definition Buffer_ack :: "Buffer \<Rightarrow> int \<Rightarrow> Buffer" where
  "Buffer_ack b n =
     (if n < int (view_length (queued b))
      then b\<lparr>queued := subarray_from (queued b) n, readCount := readCount b - n\<rparr>
      else (let store = (if 128 * 1024 \<le> length (u8 b) then ArrayBuffer (32 * 1024)
                         else u8 b)
            in b\<lparr>u8 := store,
                 free := subarray_from (Uint8Array store) 0,
                 queued := subarray (Uint8Array store) 0 0,
                 readCount := 0\<rparr>))"

text \<open>
  \<^verbatim>\<open>read(length)\<close> returns a view (a copy in auto-ack mode); the result here is the bytes
  that view shows when \<^verbatim>\<open>read\<close> returns, with the new state.
\<close>

definition Buffer_read :: "Buffer \<Rightarrow> int \<Rightarrow> byte list \<times> Buffer" where
  "Buffer_read b n =
     (let ret = subarray (queued b) (readCount b) (readCount b + n);
          b1 = b\<lparr>readCount := readCount b + int (view_length ret)\<rparr>
      in if autoack b then (view_bytes (u8 b) ret, Buffer_ack b1 (int (view_length ret)))
         else (view_bytes (u8 b) ret, b1))"

section \<open>JavaScript numbers and DataView\<close>

text \<open>
  Counters are JavaScript numbers holding integers; they are integers here (the loss of
  precision above \<open>2^53\<close> is not modelled). The operator \<^verbatim>\<open>&\<close> converts both operands to
  signed 32-bit integers and returns a signed 32-bit integer; \<^verbatim>\<open>%\<close> is the remainder with
  the sign of the dividend.
\<close>

definition js_and :: "int \<Rightarrow> int \<Rightarrow> int" where
  "js_and a b = sint ((word_of_int a :: 32 word) AND word_of_int b)"

definition js_rem :: "int \<Rightarrow> int \<Rightarrow> int" where
  "js_rem a b = sgn a * (\<bar>a\<bar> mod \<bar>b\<bar>)"

text \<open>
  \<^verbatim>\<open>new DataView(data).getUint32(0)\<close>: the first four bytes, big-endian; a \<^verbatim>\<open>RangeError\<close> on a
  buffer of fewer than four bytes.
\<close>

definition getUint32 :: "byte list \<Rightarrow> error + int" where
  "getUint32 data =
     (if length data < 4 then Inl RangeError
      else Inr (((uint (data ! 0) * 256 + uint (data ! 1)) * 256 + uint (data ! 2)) * 256
                + uint (data ! 3)))"

text \<open>\<^verbatim>\<open>dv.setUint32(0, v)\<close>: the four bytes of \<open>v\<close> modulo \<open>2^32\<close>, big-endian.\<close>

definition setUint32 :: "int \<Rightarrow> byte list" where
  "setUint32 v =
     (let w = v mod 2 ^ 32
      in [word_of_int (w div 2 ^ 24), word_of_int (w div 2 ^ 16),
          word_of_int (w div 2 ^ 8), word_of_int w])"

section \<open>nassh.Stream.GoogleRelay\<close>

text \<open>
  What a stream does to the outside, in the order it does it: timers, the overlay, network
  requests and the callbacks of the consumer. Console output is left out. A callback is
  recorded, not run: a consumer that calls back into the stream from inside a callback is
  outside this model.
\<close>

datatype effect =
    SetBackoffTimeout int
  | ClearTimeout
  | ShowOverlay int
  | OpenComplete bool
  | ReadRequest "string option" int
  | WriteRequest "string option" int string
  | NewWebSocket "string option" int int "nat option"
  | SocketSend "byte list"
  | SocketSendLatency int
  | SetSendWriteTimeout
  | DataAvailable "byte list"
  | WriteSuccess int
  | Close

text \<open>
  The fields of \<^verbatim>\<open>nassh.Stream.GoogleRelay\<close> that the handlers below use. \<open>backoffTimeout\<close>
  is \<open>Some ms\<close> while a one-shot timer, set for \<open>ms\<close> milliseconds, is pending (the handle
  that \<^verbatim>\<open>setTimeout\<close> returns is a positive number, so it is truthy). \<open>onWriteSuccess\<close> tells
  whether \<^verbatim>\<open>onWriteSuccess_\<close> is a function. \<open>readCount_relay\<close> is the \<^verbatim>\<open>readCount_\<close> of the
  stream. \<open>resume\<close>, \<open>reportConnectAttempts\<close> and \<open>reportAckLatency\<close> are \<^verbatim>\<open>resume_\<close> and the
  two properties of \<^verbatim>\<open>relay_\<close> that are read.
\<close>

record GoogleRelay =
  sessionID :: "string option"
  backoffMS :: int
  backoffTimeout :: "int option"
  writeBuffer :: Buffer
  writeCount :: int
  onWriteSuccess :: bool
  readCount_relay :: int
  resume :: bool
  reportConnectAttempts :: bool
  reportAckLatency :: bool
  effects :: "effect list"

definition perform :: "effect list \<Rightarrow> 'a GoogleRelay_scheme \<Rightarrow> 'a GoogleRelay_scheme" where
  "perform es s = s\<lparr>effects := effects s @ es\<rparr>"

text \<open>
  Modelled from the spec: \<^verbatim>\<open>nassh.Stream.prototype.close\<close> is not among the sources. The
  specification says that a fatal error closes the stream and that the consumer is notified
  through the close; the call is recorded as the effect \<open>Close\<close>.
\<close>

definition close :: "'a GoogleRelay_scheme \<Rightarrow> 'a GoogleRelay_scheme" where
  "close s = perform [Close] s"

text \<open>The truthiness of \<^verbatim>\<open>sessionID_\<close>: neither \<^verbatim>\<open>null\<close> nor the empty string.\<close>

definition has_session :: "'a GoogleRelay_scheme \<Rightarrow> bool" where
  "has_session s = (case sessionID s of None \<Rightarrow> False | Some sid \<Rightarrow> sid \<noteq> [])"

text \<open>
  The methods \<^verbatim>\<open>resumeRead_\<close> and \<^verbatim>\<open>sendWrite_\<close> are overridden by the two transports; the
  methods of the base class take them as arguments. The trailing underscore of the private
  names of the source is dropped.
\<close>

definition onBackoffExpired ::
  "('a GoogleRelay_scheme \<Rightarrow> 'a GoogleRelay_scheme) \<Rightarrow>
   ('a GoogleRelay_scheme \<Rightarrow> 'a GoogleRelay_scheme) \<Rightarrow>
   'a GoogleRelay_scheme \<Rightarrow> 'a GoogleRelay_scheme" where
  "onBackoffExpired resumeRead sendWrite s =
     sendWrite (resumeRead (s\<lparr>backoffTimeout := None\<rparr>))"

definition requestSuccess ::
  "('a GoogleRelay_scheme \<Rightarrow> 'a GoogleRelay_scheme) \<Rightarrow>
   ('a GoogleRelay_scheme \<Rightarrow> 'a GoogleRelay_scheme) \<Rightarrow>
   bool \<Rightarrow> 'a GoogleRelay_scheme \<Rightarrow> 'a GoogleRelay_scheme" where
  "requestSuccess resumeRead sendWrite isRead s =
     (let s1 = s\<lparr>backoffMS := 0\<rparr>
      in if backoffTimeout s1 \<noteq> None
         then onBackoffExpired resumeRead sendWrite (perform [ClearTimeout] s1)
         else if isRead then resumeRead s1 else sendWrite s1)"

definition requestError :: "bool \<Rightarrow> 'a GoogleRelay_scheme \<Rightarrow> 'a GoogleRelay_scheme" where
  "requestError isRead s =
     (if \<not> has_session s \<or> backoffTimeout s \<noteq> None then s
      else (let ms = (if backoffMS s = 0 then 1
                      else (let m = backoffMS s * 2 + 13
                            in if 10000 < m then 10000 - js_rem m 9000 else m));
                s1 = s\<lparr>backoffMS := ms\<rparr>;
                s2 = (if 1000 \<le> ms then perform [ShowOverlay (ms + 500)] s1 else s1)
            in (perform [SetBackoffTimeout ms] s2)\<lparr>backoffTimeout := Some ms\<rparr>))"

text \<open>
  \<^verbatim>\<open>asyncWrite(data, onSuccess)\<close>; \<open>onSuccess\<close> tells whether the argument is a function.
\<close>

definition asyncWrite ::
  "('a GoogleRelay_scheme \<Rightarrow> 'a GoogleRelay_scheme) \<Rightarrow>
   byte list \<Rightarrow> bool \<Rightarrow> 'a GoogleRelay_scheme \<Rightarrow> error + 'a GoogleRelay_scheme" where
  "asyncWrite sendWrite data onSuccess s =
     (if length data = 0 then Inr s
      else case Buffer_write (writeBuffer s) data of
             Inl e \<Rightarrow> Inl e
           | Inr wb \<Rightarrow>
               (let s1 = s\<lparr>writeBuffer := wb, onWriteSuccess := onSuccess\<rparr>
                in Inr (if backoffTimeout s1 = None then sendWrite s1 else s1)))"

text \<open>
  The \<^verbatim>\<open>onReady\<close> handler of \<^verbatim>\<open>asyncOpen_\<close>, once the session request is done, with its status
  and response text.
\<close>

definition asyncOpen_onReady ::
  "('a GoogleRelay_scheme \<Rightarrow> 'a GoogleRelay_scheme) \<Rightarrow>
   nat \<Rightarrow> string \<Rightarrow> 'a GoogleRelay_scheme \<Rightarrow> 'a GoogleRelay_scheme" where
  "asyncOpen_onReady resumeRead st responseText s =
     (if st \<noteq> 200 then perform [OpenComplete False] s
      else perform [OpenComplete True] (resumeRead (s\<lparr>sessionID := Some responseText\<rparr>)))"

section \<open>nassh.Stream.GoogleRelayXHR\<close>

text \<open>
  An \<^verbatim>\<open>XMLHttpRequest\<close>: \<open>readyState\<close> is 0 (\<^verbatim>\<open>UNSENT\<close>), 1 (\<^verbatim>\<open>OPENED\<close>), 2, 3 or 4 (\<^verbatim>\<open>DONE\<close>).
\<close>

record xhr =
  readyState :: nat
  status :: nat

record GoogleRelayXHR = GoogleRelay +
  writeRequest :: xhr
  readRequest :: xhr
  lastWriteSize :: nat

text \<open>\<^verbatim>\<open>request.open(...)\<close> followed by \<^verbatim>\<open>request.send()\<close>.\<close>

definition xhr_open_send :: "xhr \<Rightarrow> xhr" where
  "xhr_open_send r = r\<lparr>readyState := 1, status := 0\<rparr>"

definition new_GoogleRelayXHR :: "GoogleRelayXHR" where
  "new_GoogleRelayXHR =
     \<lparr>sessionID = None, backoffMS = 0, backoffTimeout = None,
      writeBuffer = new_Buffer False, writeCount = 0, onWriteSuccess = False,
      readCount_relay = 0, resume = False, reportConnectAttempts = False,
      reportAckLatency = False, effects = [],
      writeRequest = \<lparr>readyState = 0, status = 0\<rparr>,
      readRequest = \<lparr>readyState = 0, status = 0\<rparr>,
      lastWriteSize = 0\<rparr>"

definition maxMessageLength_XHR :: int where
  "maxMessageLength_XHR = 1024"

definition isRequestBusy :: "xhr \<Rightarrow> bool" where
  "isRequestBusy r \<longleftrightarrow> readyState r \<noteq> 4 \<and> readyState r \<noteq> 0"

definition resumeRead_XHR :: "GoogleRelayXHR \<Rightarrow> GoogleRelayXHR" where
  "resumeRead_XHR s =
     (if isRequestBusy (readRequest s) then s
      else if backoffTimeout s \<noteq> None then s
      else (perform [ReadRequest (sessionID s) (readCount_relay s)] s)
             \<lparr>readRequest := xhr_open_send (readRequest s)\<rparr>)"

text \<open>
  \<^verbatim>\<open>sendWrite_\<close> of the polling transport. The encoders \<^verbatim>\<open>nassh.base64ToBase64Url\<close>, \<^verbatim>\<open>btoa\<close>
  and \<^verbatim>\<open>lib.codec.codeUnitArrayToString\<close> are not among the sources: their composition is
  the parameter \<open>encode\<close>.
\<close>

definition sendWrite_XHR :: "(byte list \<Rightarrow> string) \<Rightarrow> GoogleRelayXHR \<Rightarrow> GoogleRelayXHR" where
  "sendWrite_XHR encode s =
     (if Buffer_getQueuedBytes (writeBuffer s) = 0 \<or> isRequestBusy (writeRequest s) then s
      else if backoffTimeout s \<noteq> None then s
      else (let dataBuffer = fst (Buffer_read (writeBuffer s) maxMessageLength_XHR);
                s1 = s\<lparr>writeBuffer := snd (Buffer_read (writeBuffer s) maxMessageLength_XHR)\<rparr>;
                s2 = (perform [WriteRequest (sessionID s1) (writeCount s1) (encode dataBuffer)] s1)
                       \<lparr>writeRequest := xhr_open_send (writeRequest s1)\<rparr>
            in s2\<lparr>lastWriteSize := length dataBuffer\<rparr>))"

text \<open>
  \<^verbatim>\<open>onWriteDone_\<close>, the \<^verbatim>\<open>loadend\<close> handler of the write request; \<^verbatim>\<open>onRequestError_\<close> is called
  with that request as target of the event, so \<open>isRead\<close> is false.
\<close>

definition onWriteDone :: "(byte list \<Rightarrow> string) \<Rightarrow> GoogleRelayXHR \<Rightarrow> GoogleRelayXHR" where
  "onWriteDone encode s =
     (if readyState (writeRequest s) \<noteq> 4 then s
      else if status (writeRequest s) = 410 then close s
      else if status (writeRequest s) \<noteq> 200 then requestError False s
      else (let s1 = s\<lparr>writeBuffer := Buffer_ack (writeBuffer s) (int (lastWriteSize s))\<rparr>;
                s2 = s1\<lparr>writeCount := writeCount s1 + int (lastWriteSize s1)\<rparr>;
                s3 = requestSuccess resumeRead_XHR (sendWrite_XHR encode) False s2
            in if onWriteSuccess s3 then perform [WriteSuccess (writeCount s3)] s3 else s3))"

text \<open>The browser completes the write request with the given status.\<close>

definition write_request_done :: "nat \<Rightarrow> GoogleRelayXHR \<Rightarrow> GoogleRelayXHR" where
  "write_request_done st s = s\<lparr>writeRequest := \<lparr>readyState = 4, status = st\<rparr>\<rparr>"

section \<open>nassh.Stream.GoogleRelayWS\<close>

text \<open>
  A \<^verbatim>\<open>WebSocket\<close> object: an identity, to tell the current socket from an earlier one, and
  its \<^verbatim>\<open>readyState\<close> (0 connecting, 1 open, 2 closing, 3 closed).
\<close>

record websocket =
  ws_id :: nat
  ws_readyState :: nat

record GoogleRelayWS = GoogleRelay +
  socket :: "websocket option"
  ackTime :: int
  expectedAck :: int
  ackTimes :: "int list"
  ackTimesIndex :: nat
  connectCount :: nat

definition new_GoogleRelayWS :: "GoogleRelayWS" where
  "new_GoogleRelayWS =
     \<lparr>sessionID = None, backoffMS = 0, backoffTimeout = None,
      writeBuffer = new_Buffer False, writeCount = 0, onWriteSuccess = False,
      readCount_relay = 0, resume = False, reportConnectAttempts = False,
      reportAckLatency = False, effects = [],
      socket = None, ackTime = 0, expectedAck = 0,
      ackTimes = [0, 0, 0, 0, 0, 0, 0, 0, 0, 0], ackTimesIndex = 0, connectCount = 0\<rparr>"

definition maxMessageLength_WS :: int where
  "maxMessageLength_WS = 32 * 1024 - 4"

text \<open>
  \<^verbatim>\<open>resumeRead_\<close> of the socket transport; \<open>fresh\<close> is the identity of the object that
  \<^verbatim>\<open>new WebSocket(uri)\<close> returns.
\<close>

definition resumeRead_WS :: "nat \<Rightarrow> GoogleRelayWS \<Rightarrow> GoogleRelayWS" where
  "resumeRead_WS fresh s =
     (if backoffTimeout s \<noteq> None then s
      else if has_session s \<and> socket s = None
      then (let s1 = (if reportConnectAttempts s
                      then s\<lparr>connectCount := connectCount s + 1\<rparr> else s)
            in (perform [NewWebSocket (sessionID s1)
                           (js_and (readCount_relay s1) 0xffffff)
                           (js_and (writeCount s1) 0xffffff)
                           (if reportConnectAttempts s1 then Some (connectCount s1) else None)] s1)
                 \<lparr>socket := Some \<lparr>ws_id = fresh, ws_readyState = 0\<rparr>\<rparr>)
      else s)"

text \<open>
  \<^verbatim>\<open>recordAckTime_(deltaTime)\<close>. The times are integers (differences of \<^verbatim>\<open>Date.now()\<close>), the
  index stays below the length of the list, and \<^verbatim>\<open>Math.round(sum / n)\<close> is
  \<open>\<lfloor>sum / n + 1/2\<rfloor>\<close>.
\<close>

definition recordAckTime :: "int \<Rightarrow> GoogleRelayWS \<Rightarrow> GoogleRelayWS" where
  "recordAckTime deltaTime s =
     (let s1 = s\<lparr>ackTimes := (ackTimes s)[ackTimesIndex s := deltaTime]\<rparr>;
          s2 = s1\<lparr>ackTimesIndex := (ackTimesIndex s1 + 1) mod length (ackTimes s1)\<rparr>
      in if ackTimesIndex s2 = 0 \<and> reportAckLatency s2
         then perform [SocketSendLatency
                ((2 * sum_list (ackTimes s2) + int (length (ackTimes s2)))
                 div (2 * int (length (ackTimes s2))))] s2
         else s2)"

text \<open>
  \<^verbatim>\<open>sendWrite_\<close> of the socket transport; \<open>now\<close> is what \<^verbatim>\<open>Date.now()\<close> returns.
\<close>

definition sendWrite_WS :: "int \<Rightarrow> GoogleRelayWS \<Rightarrow> GoogleRelayWS" where
  "sendWrite_WS now s =
     (if (case socket s of None \<Rightarrow> True | Some w \<Rightarrow> ws_readyState w \<noteq> 1) \<or>
         Buffer_getQueuedBytes (writeBuffer s) = 0 then s
      else if backoffTimeout s \<noteq> None then s
      else (let dataBuffer = fst (Buffer_read (writeBuffer s) maxMessageLength_WS);
                s1 = s\<lparr>writeBuffer := snd (Buffer_read (writeBuffer s) maxMessageLength_WS)\<rparr>;
                s2 = perform [SocketSend (setUint32 (js_and (readCount_relay s1) 0xffffff)
                                          @ dataBuffer)] s1;
                s3 = s2\<lparr>ackTime := now, expectedAck := js_and (writeCount s2) 0xffffff\<rparr>;
                s4 = (if onWriteSuccess s3 then perform [WriteSuccess (writeCount s3)] s3 else s3)
            in if Buffer_getQueuedBytes (writeBuffer s4) \<noteq> 0
               then perform [SetSendWriteTimeout] s4 else s4))"

text \<open>\<^verbatim>\<open>onSocketOpen_(e)\<close>, with \<open>target\<close>, \<open>now\<close> and \<open>fresh\<close> as below.\<close>

definition onSocketOpen :: "nat \<Rightarrow> int \<Rightarrow> nat \<Rightarrow> GoogleRelayWS \<Rightarrow> GoogleRelayWS" where
  "onSocketOpen target now fresh s =
     (if (case socket s of None \<Rightarrow> True | Some w \<Rightarrow> ws_id w \<noteq> target) then s
      else requestSuccess (resumeRead_WS fresh) (sendWrite_WS now) False
             (s\<lparr>connectCount := 0\<rparr>))"

text \<open>The browser reports the current socket open.\<close>

definition socket_opens :: "GoogleRelayWS \<Rightarrow> GoogleRelayWS" where
  "socket_opens s =
     s\<lparr>socket := (case socket s of None \<Rightarrow> None
                   | Some w \<Rightarrow> Some (w\<lparr>ws_readyState := 1\<rparr>))\<rparr>"

text \<open>The variable \<^verbatim>\<open>delta\<close> of \<^verbatim>\<open>onSocketData_\<close>.\<close>

definition ack_delta :: "int \<Rightarrow> int \<Rightarrow> int" where
  "ack_delta ack wc = js_and (js_and ack 0xffffff - js_and wc 0xffffff) 0xffffff"

text \<open>
  \<^verbatim>\<open>onSocketData_(e)\<close>: \<open>target\<close> is the identity of \<^verbatim>\<open>e.target\<close>, \<open>data\<close> is \<^verbatim>\<open>e.data\<close>, \<open>now\<close> and
  \<open>now'\<close> are what the two calls of \<^verbatim>\<open>Date.now()\<close> return (here and in \<^verbatim>\<open>sendWrite_\<close>), and
  \<open>fresh\<close> is as in \<open>resumeRead_WS\<close>.
\<close>

definition onSocketData ::
  "nat \<Rightarrow> byte list \<Rightarrow> int \<Rightarrow> int \<Rightarrow> nat \<Rightarrow> GoogleRelayWS \<Rightarrow> error + GoogleRelayWS" where
  "onSocketData target data now now' fresh s =
     (if (case socket s of None \<Rightarrow> True | Some w \<Rightarrow> ws_id w \<noteq> target) then Inr s
      else case getUint32 data of
             Inl e \<Rightarrow> Inl e
           | Inr ack \<Rightarrow>
               if 0xffffff < ack then Inr ((close s)\<lparr>sessionID := None\<rparr>)
               else (let s1 = (if ackTime s \<noteq> 0 \<and> ack = expectedAck s
                               then (recordAckTime (now - ackTime s) s)\<lparr>ackTime := 0\<rparr>
                               else s);
                         delta = ack_delta ack (writeCount s1);
                         s2 = s1\<lparr>writeBuffer := Buffer_ack (writeBuffer s1) delta\<rparr>;
                         s3 = s2\<lparr>writeCount := writeCount s2 + delta\<rparr>;
                         payload = drop 4 data;
                         s4 = (if length payload \<noteq> 0
                               then (perform [DataAvailable payload] s3)
                                      \<lparr>readCount_relay := readCount_relay s3 + int (length payload)\<rparr>
                               else s3)
                     in Inr (requestSuccess (resumeRead_WS fresh) (sendWrite_WS now') False s4)))"

section \<open>Sequences of buffer operations\<close>

datatype op = Write "byte list" | Read int | Ack int

text \<open>
  A caller's sequence of calls on one buffer: the bytes each \<^verbatim>\<open>read\<close> returned, in order,
  and the final state; the first exception ends the run.
\<close>

fun run :: "Buffer \<Rightarrow> op list \<Rightarrow> error + (byte list list \<times> Buffer)" where
  "run b [] = Inr ([], b)"
| "run b (Write d # ops) =
     (case Buffer_write b d of Inl e \<Rightarrow> Inl e | Inr b' \<Rightarrow> run b' ops)"
| "run b (Read n # ops) =
     (case run (snd (Buffer_read b n)) ops of
        Inl e \<Rightarrow> Inl e
      | Inr (rs, b') \<Rightarrow> Inr (fst (Buffer_read b n) # rs, b'))"
| "run b (Ack n # ops) = run (Buffer_ack b n) ops"

definition outputs :: "error + (byte list list \<times> Buffer) \<Rightarrow> byte list list option" where
  "outputs r = (case r of Inl e \<Rightarrow> None | Inr (rs, b) \<Rightarrow> Some rs)"

definition final :: "error + (byte list list \<times> Buffer) \<Rightarrow> Buffer option" where
  "final r = (case r of Inl e \<Rightarrow> None | Inr (rs, b) \<Rightarrow> Some b)"

section \<open>What a buffer holds, apart from where it is stored\<close>

text \<open>
  The two views of a buffer partition its storage: the free view starts where the queued
  view ends and runs to the end of the storage.
\<close>

definition Buffer_wf :: "Buffer \<Rightarrow> bool" where
  "Buffer_wf b \<longleftrightarrow>
     byteOffset (queued b) + view_length (queued b) = byteOffset (free b) \<and>
     byteOffset (free b) + view_length (free b) = length (u8 b)"

text \<open>The invariant of the specification, \<open>0 \<le> readCursor \<le> len(queued) \<le> capacity\<close>.\<close>

definition Buffer_inv :: "Buffer \<Rightarrow> bool" where
  "Buffer_inv b \<longleftrightarrow>
     Buffer_wf b \<and> 0 \<le> readCount b \<and> readCount b \<le> int (view_length (queued b)) \<and>
     view_length (queued b) \<le> length (u8 b)"

definition queued_bytes :: "Buffer \<Rightarrow> byte list" where
  "queued_bytes b = view_bytes (u8 b) (queued b)"

text \<open>\<^verbatim>\<open>subarray\<close> on the bytes themselves.\<close>

definition list_subarray :: "'a list \<Rightarrow> int \<Rightarrow> int \<Rightarrow> 'a list" where
  "list_subarray xs start stop =
     (let b = relative_index start (length xs);
          e = relative_index stop (length xs)
      in take (e - b) (drop b xs))"

text \<open>
  A buffer without storage: the queued bytes, the read count and the auto-ack flag. Nothing
  is ever allocated, moved or copied in it.
\<close>

type_synonym fifo = "byte list \<times> int \<times> bool"

definition abstraction :: "Buffer \<Rightarrow> fifo" where
  "abstraction b = (queued_bytes b, readCount b, autoack b)"

fun Fifo_write :: "fifo \<Rightarrow> byte list \<Rightarrow> fifo" where
  "Fifo_write (q, rc, aa) d = (q @ d, rc, aa)"

fun Fifo_ack :: "fifo \<Rightarrow> int \<Rightarrow> fifo" where
  "Fifo_ack (q, rc, aa) n =
     (if n < int (length q) then (list_subarray q n (int (length q)), rc - n, aa)
      else ([], 0, aa))"

fun Fifo_read :: "fifo \<Rightarrow> int \<Rightarrow> byte list \<times> fifo" where
  "Fifo_read (q, rc, aa) n =
     (let ret = list_subarray q rc (rc + n)
      in (ret, if aa then Fifo_ack (q, rc + int (length ret), aa) (int (length ret))
               else (q, rc + int (length ret), aa)))"

fun Fifo_run :: "fifo \<Rightarrow> op list \<Rightarrow> byte list list \<times> fifo" where
  "Fifo_run s [] = ([], s)"
| "Fifo_run s (Write d # ops) = Fifo_run (Fifo_write s d) ops"
| "Fifo_run s (Read n # ops) =
     (fst (Fifo_read s n) # fst (Fifo_run (snd (Fifo_read s n)) ops),
      snd (Fifo_run (snd (Fifo_read s n)) ops))"
| "Fifo_run s (Ack n # ops) = Fifo_run (Fifo_ack s n) ops"

definition Fifo_inv :: "fifo \<Rightarrow> bool" where
  "Fifo_inv s \<longleftrightarrow> 0 \<le> fst (snd s) \<and> fst (snd s) \<le> int (length (fst s))"

text \<open>The bytes not yet read.\<close>

definition Fifo_unread :: "fifo \<Rightarrow> byte list" where
  "Fifo_unread s = drop (nat (fst (snd s))) (fst s)"

definition unread :: "Buffer \<Rightarrow> byte list" where
  "unread b = drop (nat (readCount b)) (queued_bytes b)"

section \<open>Callers that follow the contract of \<^verbatim>\<open>ack\<close>\<close>

text \<open>
  The source documents \<^verbatim>\<open>ack\<close> as acknowledging bytes previously read. A sequence of
  calls conforms when no call throws, every length is non-negative and every \<^verbatim>\<open>ack\<close>
  releases at most the bytes read and not yet acknowledged.
\<close>

fun conforming :: "Buffer \<Rightarrow> op list \<Rightarrow> bool" where
  "conforming b [] = True"
| "conforming b (Write d # ops) =
     (case Buffer_write b d of Inl e \<Rightarrow> False | Inr b' \<Rightarrow> conforming b' ops)"
| "conforming b (Read n # ops) = (0 \<le> n \<and> conforming (snd (Buffer_read b n)) ops)"
| "conforming b (Ack n # ops) =
     (0 \<le> n \<and> n \<le> readCount b \<and> conforming (Buffer_ack b n) ops)"

text \<open>The bytes written, acknowledged and returned over a sequence of calls.\<close>

fun written :: "op list \<Rightarrow> int" where
  "written [] = 0"
| "written (Write d # ops) = int (length d) + written ops"
| "written (Read n # ops) = written ops"
| "written (Ack n # ops) = written ops"

fun acked :: "op list \<Rightarrow> int" where
  "acked [] = 0"
| "acked (Write d # ops) = acked ops"
| "acked (Read n # ops) = acked ops"
| "acked (Ack n # ops) = n + acked ops"

definition returned :: "byte list list \<Rightarrow> int" where
  "returned rs = sum_list (map (\<lambda>r. int (length r)) rs)"

text \<open>
  A sequence of \<^verbatim>\<open>write\<close> and \<^verbatim>\<open>ack\<close> calls with no \<^verbatim>\<open>read\<close>, in which every \<^verbatim>\<open>ack\<close> releases
  between 0 and the bytes then queued. A \<^verbatim>\<open>write\<close> that throws ends the sequence.
\<close>

fun write_ack_only :: "Buffer \<Rightarrow> op list \<Rightarrow> bool" where
  "write_ack_only b [] = True"
| "write_ack_only b (Write d # ops) =
     (case Buffer_write b d of Inl e \<Rightarrow> True | Inr b' \<Rightarrow> write_ack_only b' ops)"
| "write_ack_only b (Read n # ops) = False"
| "write_ack_only b (Ack n # ops) =
     (0 \<le> n \<and> n \<le> int (view_length (queued b)) \<and> write_ack_only (Buffer_ack b n) ops)"

text \<open>
  The bytes released by partial acknowledgements (\<open>n < len(queued)\<close>) since the buffer was
  last emptied by a full one, over a sequence of calls; \<open>len\<close> is the length of the queue
  and \<open>p\<close> the amount so far.
\<close>

fun partly_acked :: "int \<Rightarrow> int \<Rightarrow> op list \<Rightarrow> int" where
  "partly_acked len p [] = p"
| "partly_acked len p (Write d # ops) = partly_acked (len + int (length d)) p ops"
| "partly_acked len p (Read n # ops) = partly_acked len p ops"
| "partly_acked len p (Ack n # ops) =
     (if n < len then partly_acked (len - n) (p + n) ops else partly_acked 0 0 ops)"

text \<open>
  Following the specification's words, ``the next 1KB-aligned size \<open>\<ge> n\<close>'': the least
  multiple of 1024 that is at least \<open>n\<close>.
\<close>

definition next_1k_aligned :: "nat \<Rightarrow> nat" where
  "next_1k_aligned n = ((n + 1023) div 1024) * 1024"

section \<open>A consumer that acknowledges at once\<close>

text \<open>
  A consumer that puts bytes in and takes up to \<open>n\<close> bytes out. On a buffer in manual
  mode a take is \<^verbatim>\<open>read(n)\<close> followed immediately by \<^verbatim>\<open>ack(n)\<close>; on a buffer in auto-ack
  mode it is \<^verbatim>\<open>read(n)\<close> alone.
\<close>

datatype consumer_op = Put "byte list" | Take nat

fun manual_ops :: "consumer_op list \<Rightarrow> op list" where
  "manual_ops [] = []"
| "manual_ops (Put d # cs) = Write d # manual_ops cs"
| "manual_ops (Take n # cs) = Read (int n) # Ack (int n) # manual_ops cs"

fun auto_ops :: "consumer_op list \<Rightarrow> op list" where
  "auto_ops [] = []"
| "auto_ops (Put d # cs) = Write d # auto_ops cs"
| "auto_ops (Take n # cs) = Read (int n) # auto_ops cs"

text \<open>
  Following the specification's words, a buffer that never retains acknowledged data: a
  plain queue of bytes, from which the bytes taken are gone at once.
\<close>

fun queue_run :: "byte list \<Rightarrow> consumer_op list \<Rightarrow> byte list list" where
  "queue_run q [] = []"
| "queue_run q (Put d # cs) = queue_run (q @ d) cs"
| "queue_run q (Take n # cs) = take n q # queue_run (drop n q) cs"

section \<open>Concrete states\<close>

text \<open>
  A polling stream after a successful \<^verbatim>\<open>asyncOpen_\<close>: the session is established and the
  first read request is in flight.
\<close>

definition opened_XHR :: GoogleRelayXHR where
  "opened_XHR = asyncOpen_onReady resumeRead_XHR 200 ''sid'' new_GoogleRelayXHR"

text \<open>
  A socket stream after a successful \<^verbatim>\<open>asyncOpen_\<close>, once its socket (of identity 1) is
  open.
\<close>

definition opened_WS :: GoogleRelayWS where
  "opened_WS =
     onSocketOpen 1 0 2
       (socket_opens (asyncOpen_onReady (resumeRead_WS 1) 200 ''sid'' new_GoogleRelayWS))"

text \<open>An encoder for the concrete runs: two hexadecimal digits per byte.\<close>

definition hex_digit :: "nat \<Rightarrow> char" where
  "hex_digit n = (''0123456789abcdef'') ! (n mod 16)"

definition encode_hex :: "byte list \<Rightarrow> string" where
  "encode_hex bs = concat (map (\<lambda>b. [hex_digit (unat b div 16), hex_digit (unat b)]) bs)"

text \<open>A new buffer after \<^verbatim>\<open>write([1, 2, 3, 4, 5])\<close> and \<^verbatim>\<open>read(3)\<close>.\<close>

definition B0 :: Buffer where
  "B0 = \<lparr>u8 = [1, 2, 3, 4, 5] @ replicate 32763 0,
         free = \<lparr>byteOffset = 5, view_length = 32763\<rparr>,
         queued = \<lparr>byteOffset = 0, view_length = 5\<rparr>,
         readCount = 3, autoack = False\<rparr>"

text \<open>A new buffer after \<^verbatim>\<open>write([1, 2, 3, 4, 5])\<close> and \<^verbatim>\<open>ack(3)\<close>, with nothing read.\<close>

definition Bneg :: Buffer where
  "Bneg = \<lparr>u8 = [1, 2, 3, 4, 5] @ replicate 32763 0,
           free = \<lparr>byteOffset = 5, view_length = 32763\<rparr>,
           queued = \<lparr>byteOffset = 3, view_length = 2\<rparr>,
           readCount = - 3, autoack = False\<rparr>"

text \<open>A new buffer after a \<^verbatim>\<open>write\<close> of 32768 bytes: the storage is full.\<close>

definition Bfull :: Buffer where
  "Bfull = \<lparr>u8 = replicate 32768 1,
            free = \<lparr>byteOffset = 32768, view_length = 0\<rparr>,
            queued = \<lparr>byteOffset = 0, view_length = 32768\<rparr>,
            readCount = 0, autoack = False\<rparr>"

text \<open>A new buffer after a \<^verbatim>\<open>write\<close> of 131072 bytes: the storage has grown to 129 KiB.\<close>

definition Bgrown :: Buffer where
  "Bgrown = \<lparr>u8 = replicate 131072 7 @ replicate 1024 0,
             free = \<lparr>byteOffset = 131072, view_length = 1024\<rparr>,
             queued = \<lparr>byteOffset = 0, view_length = 131072\<rparr>,
             readCount = 0, autoack = False\<rparr>"

text \<open>The queued bytes of \<open>Bfull\<close> in a storage with 2048 bytes of room.\<close>

definition Broomy :: Buffer where
  "Broomy = \<lparr>u8 = replicate 32768 1 @ replicate 2048 0,
            free = \<lparr>byteOffset = 32768, view_length = 2048\<rparr>,
            queued = \<lparr>byteOffset = 0, view_length = 32768\<rparr>,
            readCount = 0, autoack = False\<rparr>"


text \<open>
  An open socket stream about to send: five bytes queued, three of them sent before, the
  callback registered, 100 bytes acknowledged so far and seven bytes received.
\<close>

definition pending_WS :: GoogleRelayWS where
  "pending_WS = opened_WS\<lparr>writeBuffer := B0, onWriteSuccess := True, writeCount := 100,
     readCount_relay := 7\<rparr>"

text \<open>
  A polling stream whose write request, of three bytes, has just completed with status 200.
\<close>

definition pending_XHR :: GoogleRelayXHR where
  "pending_XHR = write_request_done 200
     (opened_XHR\<lparr>writeBuffer := B0, onWriteSuccess := True, lastWriteSize := 3\<rparr>)"

text \<open>The relay answers the write request in flight with status 200.\<close>

definition write_acknowledged ::
  "(byte list \<Rightarrow> string) \<Rightarrow> error + GoogleRelayXHR \<Rightarrow> error + GoogleRelayXHR" where
  "write_acknowledged enc r =
     (case r of Inl e \<Rightarrow> Inl e
      | Inr x \<Rightarrow> Inr (onWriteDone enc (write_request_done 200 x)))"

section \<open>Properties of the buffer\<close>

lemma relative_index_nat [simp]: "relative_index (int k) n = min k n"
  by (simp add: relative_index_def)

lemma relative_index_0 [simp]: "relative_index 0 n = 0"
  by (simp add: relative_index_def)

lemma subarray_nat:
  "subarray v (int i) (int j) = \<lparr>byteOffset = byteOffset v + min i (view_length v),
      view_length = min j (view_length v) - min i (view_length v)\<rparr>"
  by (simp add: subarray_def Let_def)

lemma length_queued_bytes:
  "Buffer_wf b \<Longrightarrow> length (queued_bytes b) = view_length (queued b)"
  by (auto simp: Buffer_wf_def queued_bytes_def view_bytes_def)

lemma write_make_room_ok:
  assumes "Buffer_wf b"
  shows "\<exists>b'. write_make_room b n = Inr b' \<and> Buffer_wf b' \<and>
           queued_bytes b' = queued_bytes b \<and>
           queued b' = \<lparr>byteOffset = 0, view_length = view_length (queued b)\<rparr> \<and>
           readCount b' = readCount b \<and> autoack b' = autoack b \<and>
           length (u8 b') =
             (if length (u8 b) < view_length (queued b) + n
              then ((view_length (queued b) + n) div 1024 + 1) * 1024 else length (u8 b)) \<and>
           view_length (queued b) + n \<le> length (u8 b')"
proof -
  let ?q = "view_length (queued b)"
  let ?store = "if length (u8 b) < ?q + n then ArrayBuffer ((( ?q + n) div 1024 + 1) * 1024) else u8 b"
  have len: "length (view_bytes (u8 b) (queued b)) = ?q"
    using assms by (auto simp: Buffer_wf_def view_bytes_def)
  have big: "?q + n \<le> length ?store"
  proof (cases "length (u8 b) < ?q + n")
    case True
    have "?q + n < ((?q + n) div 1024 + 1) * 1024"
      using div_mult_mod_eq [of "?q + n" 1024] mod_less_divisor [of 1024 "?q + n"] by simp
    with True show ?thesis by (simp add: ArrayBuffer_def)
  next
    case False then show ?thesis by simp
  qed
  then have fits: "?q \<le> length ?store" by linarith
  show ?thesis
    using fits big len
    by (auto simp: write_make_room_def set_bytes_def Let_def Uint8Array_def Buffer_wf_def
        queued_bytes_def view_bytes_def subarray_def subarray_from_def ArrayBuffer_def)
qed

lemma relative_index_nonneg: "0 \<le> i \<Longrightarrow> relative_index i n = min (nat i) n"
  by (simp add: relative_index_def)

lemma take_drop_store_append:
  assumes "qo + ql = fo" "fo + length d \<le> length s"
  shows "take (ql + length d) (drop qo (take fo s @ d @ drop (fo + length d) s))
         = take ql (drop qo s) @ d"
proof -
  have "fo - qo = ql"
    using assms by simp
  then have "drop qo (take fo s) = take ql (drop qo s)"
    by (simp add: drop_take)
  moreover have "length (take ql (drop qo s)) = ql"
    using assms by simp
  ultimately show ?thesis
    using assms by simp
qed

lemma write_append_ok:
  assumes wf: "Buffer_wf b" and fits: "length d \<le> view_length (free b)"
  shows "\<exists>b'. write_append b d = Inr b' \<and> Buffer_wf b' \<and>
           queued_bytes b' = queued_bytes b @ d \<and>
           queued b' = \<lparr>byteOffset = byteOffset (queued b),
                         view_length = view_length (queued b) + length d\<rparr> \<and>
           readCount b' = readCount b \<and> autoack b' = autoack b \<and>
           length (u8 b') = length (u8 b)"
proof -
  let ?qo = "byteOffset (queued b)" and ?ql = "view_length (queued b)"
  let ?fo = "byteOffset (free b)" and ?fl = "view_length (free b)"
  let ?store = "take ?fo (u8 b) @ d @ drop (?fo + length d) (u8 b)"
  have q: "?qo + ?ql = ?fo" and f: "?fo + ?fl = length (u8 b)"
    using wf by (simp_all add: Buffer_wf_def)
  have len: "length ?store = length (u8 b)"
    using f fits by simp
  have free': "subarray_from (free b) (int (length d))
               = \<lparr>byteOffset = ?fo + length d, view_length = ?fl - length d\<rparr>"
    using fits by (simp add: subarray_from_def subarray_def Let_def)
  have queued': "subarray (Uint8Array ?store) (int ?qo) (int (?qo + ?ql + length d))
               = \<lparr>byteOffset = ?qo, view_length = ?ql + length d\<rparr>"
    using q f fits len
    by (simp add: subarray_def Let_def Uint8Array_def relative_index_nonneg nat_add_distrib)
  have bytes: "take (?ql + length d) (drop ?qo ?store) = take ?ql (drop ?qo (u8 b)) @ d"
    using q f fits by (intro take_drop_store_append) simp_all
  have "write_append b d = Inr (b\<lparr>u8 := ?store,
          free := \<lparr>byteOffset = ?fo + length d, view_length = ?fl - length d\<rparr>,
          queued := \<lparr>byteOffset = ?qo, view_length = ?ql + length d\<rparr>\<rparr>)"
    using fits free' queued' by (simp add: write_append_def set_bytes_def)
  then show ?thesis
    using q f fits len bytes
    by (simp add: Buffer_wf_def queued_bytes_def view_bytes_def)
qed

lemma Buffer_write_ok:
  assumes "Buffer_wf b"
  shows "\<exists>b'. Buffer_write b d = Inr b' \<and> Buffer_wf b' \<and>
           queued_bytes b' = queued_bytes b @ d \<and>
           view_length (queued b') = view_length (queued b) + length d \<and>
           byteOffset (queued b') =
             (if view_length (free b) < length d then 0 else byteOffset (queued b)) \<and>
           readCount b' = readCount b \<and> autoack b' = autoack b \<and>
           length (u8 b') =
             (if view_length (free b) < length d \<and>
                 length (u8 b) < view_length (queued b) + length d
              then ((view_length (queued b) + length d) div 1024 + 1) * 1024
              else length (u8 b))"
proof (cases "view_length (free b) < length d")
  case True
  obtain b1 where b1: "write_make_room b (length d) = Inr b1" "Buffer_wf b1"
       "queued_bytes b1 = queued_bytes b"
       "queued b1 = \<lparr>byteOffset = 0, view_length = view_length (queued b)\<rparr>"
       "readCount b1 = readCount b" "autoack b1 = autoack b"
       "length (u8 b1) =
             (if length (u8 b) < view_length (queued b) + length d
              then ((view_length (queued b) + length d) div 1024 + 1) * 1024 else length (u8 b))"
       "view_length (queued b) + length d \<le> length (u8 b1)"
    using write_make_room_ok [OF assms, of "length d"] by blast
  have "length d \<le> view_length (free b1)"
    using b1(2,4,8) by (simp add: Buffer_wf_def)
  from write_append_ok [OF b1(2) this] b1 True show ?thesis
    by (auto simp: Buffer_write_def)
next
  case False
  then have "length d \<le> view_length (free b)" by simp
  from write_append_ok [OF assms this] False show ?thesis
    by (auto simp: Buffer_write_def)
qed

lemma relative_index_le: "relative_index i n \<le> n"
  by (auto simp: relative_index_def)

lemma view_bytes_subarray:
  assumes "byteOffset v + view_length v \<le> length store"
  shows "view_bytes store (subarray v s e) = list_subarray (view_bytes store v) s e"
proof -
  let ?n = "view_length v"
  let ?b = "relative_index s ?n" and ?e = "relative_index e ?n"
  have len: "length (view_bytes store v) = ?n"
    using assms by (simp add: view_bytes_def)
  have e: "?e \<le> ?n" by (rule relative_index_le)
  have "take (?e - ?b) (drop ?b (take ?n (drop (byteOffset v) store)))
        = take (?e - ?b) (drop (byteOffset v + ?b) store)"
    using e by (simp add: drop_take min_def add.commute)
  then show ?thesis
    using len by (simp add: view_bytes_def subarray_def list_subarray_def Let_def)
qed

lemma view_length_subarray:
  "view_length (subarray v s e) = relative_index e (view_length v) - relative_index s (view_length v)"
  by (simp add: subarray_def Let_def)

lemma subarray_within:
  "byteOffset (subarray v s e) + view_length (subarray v s e) \<le> byteOffset v + view_length v"
  using relative_index_le [of e "view_length v"] relative_index_le [of s "view_length v"]
  by (simp add: subarray_def Let_def)

lemma subarray_from_end:
  "byteOffset (subarray_from v s) + view_length (subarray_from v s) = byteOffset v + view_length v"
  using relative_index_le [of s "view_length v"]
  by (simp add: subarray_from_def subarray_def Let_def)

lemma Buffer_ack_ok:
  assumes "Buffer_wf b"
  shows "Buffer_wf (Buffer_ack b n) \<and> abstraction (Buffer_ack b n) = Fifo_ack (abstraction b) n"
proof (cases "n < int (view_length (queued b))")
  case True
  have within: "byteOffset (queued b) + view_length (queued b) \<le> length (u8 b)"
    using assms by (simp add: Buffer_wf_def)
  have "view_bytes (u8 b) (subarray_from (queued b) n)
        = list_subarray (queued_bytes b) n (int (view_length (queued b)))"
    unfolding subarray_from_def queued_bytes_def by (rule view_bytes_subarray [OF within])
  moreover have "length (queued_bytes b) = view_length (queued b)"
    using assms by (rule length_queued_bytes)
  ultimately show ?thesis
    using True assms subarray_from_end [of "queued b" n]
    by (simp add: Buffer_ack_def abstraction_def Buffer_wf_def queued_bytes_def)
next
  case False
  moreover have "length (queued_bytes b) = view_length (queued b)"
    using assms by (rule length_queued_bytes)
  ultimately show ?thesis
    by (simp add: Buffer_ack_def abstraction_def Buffer_wf_def queued_bytes_def Let_def
        subarray_from_def subarray_def Uint8Array_def view_bytes_def)
qed

lemma Buffer_read_ok:
  assumes "Buffer_wf b"
  shows "fst (Buffer_read b n) = fst (Fifo_read (abstraction b) n) \<and>
         Buffer_wf (snd (Buffer_read b n)) \<and>
         abstraction (snd (Buffer_read b n)) = snd (Fifo_read (abstraction b) n)"
proof -
  let ?ret = "subarray (queued b) (readCount b) (readCount b + n)"
  let ?b1 = "b\<lparr>readCount := readCount b + int (view_length ?ret)\<rparr>"
  have within: "byteOffset (queued b) + view_length (queued b) \<le> length (u8 b)"
    using assms by (simp add: Buffer_wf_def)
  have qlen: "length (queued_bytes b) = view_length (queued b)"
    using assms by (rule length_queued_bytes)
  have data: "view_bytes (u8 b) ?ret
              = list_subarray (queued_bytes b) (readCount b) (readCount b + n)"
    unfolding queued_bytes_def by (rule view_bytes_subarray [OF within])
  have rlen: "length (list_subarray (queued_bytes b) (readCount b) (readCount b + n))
              = view_length ?ret"
    using qlen relative_index_le [of "readCount b + n" "view_length (queued b)"]
    by (simp add: list_subarray_def subarray_def Let_def)
  have wf1: "Buffer_wf ?b1" using assms by (simp add: Buffer_wf_def)
  have abs1: "abstraction ?b1 = (queued_bytes b, readCount b + int (view_length ?ret), autoack b)"
    by (simp add: abstraction_def queued_bytes_def)
  show ?thesis
  proof (cases "autoack b")
    case True
    with Buffer_ack_ok [OF wf1, of "int (view_length ?ret)"] data rlen abs1 show ?thesis
      by (simp add: Buffer_read_def Let_def abstraction_def)
  next
    case False
    with wf1 data rlen abs1 show ?thesis
      by (simp add: Buffer_read_def Let_def abstraction_def)
  qed
qed

lemma Buffer_write_abs:
  assumes "Buffer_wf b"
  shows "\<exists>b'. Buffer_write b d = Inr b' \<and> Buffer_wf b' \<and>
              abstraction b' = Fifo_write (abstraction b) d"
  using Buffer_write_ok [OF assms, of d] by (auto simp: abstraction_def)

lemma run_simulation:
  "Buffer_wf b \<Longrightarrow>
     \<exists>b'. run b ops = Inr (fst (Fifo_run (abstraction b) ops), b') \<and> Buffer_wf b' \<and>
          abstraction b' = snd (Fifo_run (abstraction b) ops)"
proof (induction ops arbitrary: b)
  case Nil
  then show ?case by simp
next
  case (Cons x ops)
  show ?case
  proof (cases x)
    case (Write d)
    obtain b1 where b1: "Buffer_write b d = Inr b1" "Buffer_wf b1"
        "abstraction b1 = Fifo_write (abstraction b) d"
      using Buffer_write_abs [OF Cons.prems, of d] by blast
    from Cons.IH [OF b1(2)] b1 Write show ?thesis by simp
  next
    case (Read n)
    from Buffer_read_ok [OF Cons.prems, of n]
    have r: "fst (Buffer_read b n) = fst (Fifo_read (abstraction b) n)"
        "Buffer_wf (snd (Buffer_read b n))"
        "abstraction (snd (Buffer_read b n)) = snd (Fifo_read (abstraction b) n)"
      by simp_all
    from Cons.IH [OF r(2)] r Read show ?thesis by auto
  next
    case (Ack n)
    from Buffer_ack_ok [OF Cons.prems, of n]
    have a: "Buffer_wf (Buffer_ack b n)"
        "abstraction (Buffer_ack b n) = Fifo_ack (abstraction b) n"
      by simp_all
    from Cons.IH [OF a(1)] a Ack show ?thesis by simp
  qed
qed

lemma Buffer_wf_new: "Buffer_wf (new_Buffer aa)"
  by (simp add: Buffer_wf_def new_Buffer_def Let_def subarray_from_def subarray_def
      Uint8Array_def ArrayBuffer_def)

lemma abstraction_new: "abstraction (new_Buffer aa) = ([], 0, aa)"
  by (simp add: abstraction_def queued_bytes_def view_bytes_def new_Buffer_def Let_def
      subarray_def Uint8Array_def)

lemma Buffer_inv_new: "Buffer_inv (new_Buffer aa)"
  using Buffer_wf_new [of aa]
  by (simp add: Buffer_inv_def new_Buffer_def Let_def subarray_def Uint8Array_def)

text \<open>
  Claim C6. For every buffer state and every \<open>n \<ge> len(queued)\<close>, \<^verbatim>\<open>ack(n)\<close> resets the buffer:
  the queued view becomes empty at offset 0, the read count becomes 0, the free view is the
  whole storage, and the storage is replaced by one of the base capacity (that of a new
  buffer, 32 KiB) exactly when its capacity is at least four times the base capacity.
  \<^verbatim>\<open>ack\<close> has no statement that throws, so it is a total function here.
\<close>

theorem C6_ack_all_resets:
  assumes "int (view_length (queued b)) \<le> n"
  shows "queued (Buffer_ack b n) = \<lparr>byteOffset = 0, view_length = 0\<rparr> \<and>
         readCount (Buffer_ack b n) = 0 \<and>
         Buffer_getQueuedBytes (Buffer_ack b n) = 0 \<and>
         autoack (Buffer_ack b n) = autoack b \<and>
         byteLength (Buffer_ack b n) =
           (if 4 * byteLength (new_Buffer False) \<le> byteLength b
            then byteLength (new_Buffer False) else byteLength b) \<and>
         free (Buffer_ack b n) = \<lparr>byteOffset = 0, view_length = byteLength (Buffer_ack b n)\<rparr>"
  using assms
  by (simp add: Buffer_ack_def Let_def subarray_def subarray_from_def Uint8Array_def
      Buffer_getQueuedBytes_def byteLength_def new_Buffer_def ArrayBuffer_def)

theorem C6_ack_all_resets_witness:
  "int (view_length (queued (new_Buffer False))) \<le> 10 \<and>
   queued (Buffer_ack (new_Buffer False) 10) = \<lparr>byteOffset = 0, view_length = 0\<rparr> \<and>
   readCount (Buffer_ack (new_Buffer False) 10) = 0 \<and>
   byteLength (Buffer_ack (new_Buffer False) 10) = 32768 \<and>
   run (new_Buffer False) [Write (replicate 131072 7)] = Inr ([], Bgrown) \<and>
   byteLength Bgrown = 132096 \<and>
   int (view_length (queued Bgrown)) \<le> 131072 \<and>
   queued (Buffer_ack Bgrown 131072) = \<lparr>byteOffset = 0, view_length = 0\<rparr> \<and>
   byteLength (Buffer_ack Bgrown 131072) = 32768"
proof -
  have h: "int (view_length (queued (new_Buffer False))) \<le> 10"
    by (simp add: new_Buffer_def Let_def subarray_def Uint8Array_def)
  have base: "byteLength (new_Buffer False) = 32768"
    by (simp add: new_Buffer_def Let_def byteLength_def ArrayBuffer_def)
  have g: "run (new_Buffer False) [Write (replicate 131072 7)] = Inr ([], Bgrown)"
    by (simp add: Bgrown_def new_Buffer_def Buffer_write_def write_make_room_def
        write_append_def set_bytes_def Let_def subarray_def subarray_from_def Uint8Array_def
        ArrayBuffer_def view_bytes_def relative_index_def)
  have h': "int (view_length (queued Bgrown)) \<le> 131072" and cap: "byteLength Bgrown = 132096"
    by (simp_all add: Bgrown_def byteLength_def)
  from C6_ack_all_resets [OF h] C6_ack_all_resets [OF h'] h h' g cap base
  show ?thesis by simp
qed

lemma Buffer_inv_iff:
  "Buffer_inv b \<longleftrightarrow> Buffer_wf b \<and> Fifo_inv (abstraction b)"
proof -
  have "Buffer_wf b \<Longrightarrow> length (queued_bytes b) = view_length (queued b) \<and>
          view_length (queued b) \<le> length (u8 b)"
    using length_queued_bytes [of b] by (simp add: Buffer_wf_def)
  then show ?thesis
    by (auto simp: Buffer_inv_def Fifo_inv_def abstraction_def)
qed

lemma length_list_subarray:
  "length (list_subarray xs s e) = relative_index e (length xs) - relative_index s (length xs)"
  using relative_index_le [of e "length xs"]
  by (simp add: list_subarray_def Let_def)

lemma Fifo_inv_write: "Fifo_inv s \<Longrightarrow> Fifo_inv (Fifo_write s d)"
  by (cases s) (auto simp: Fifo_inv_def)

lemma Fifo_inv_ack:
  assumes "Fifo_inv s" "(0 \<le> n \<and> n \<le> fst (snd s)) \<or> int (length (fst s)) \<le> n"
  shows "Fifo_inv (Fifo_ack s n)"
  using assms
  by (cases s) (auto simp: Fifo_inv_def length_list_subarray relative_index_def)

lemma Fifo_inv_read:
  assumes "Fifo_inv s"
  shows "Fifo_inv (snd (Fifo_read s n))"
proof -
  obtain q rc aa where s: "s = (q, rc, aa)" by (cases s)
  let ?len = "length (list_subarray q rc (rc + n))"
  have rc: "0 \<le> rc" "rc \<le> int (length q)" using assms s by (simp_all add: Fifo_inv_def)
  have len: "rc + int ?len \<le> int (length q)"
    using rc relative_index_le [of "rc + n" "length q"]
    by (simp add: length_list_subarray relative_index_nonneg)
  show ?thesis
  proof (cases aa)
    case False
    with s rc len show ?thesis by (simp add: Fifo_inv_def Let_def)
  next
    case True
    have "Fifo_inv (Fifo_ack (q, rc + int ?len, aa) (int ?len))"
      using rc len by (intro Fifo_inv_ack) (simp_all add: Fifo_inv_def)
    with s True show ?thesis by (simp add: Let_def)
  qed
qed

lemma Buffer_inv_write:
  assumes "Buffer_inv b"
  shows "\<exists>b'. Buffer_write b d = Inr b' \<and> Buffer_inv b'"
proof -
  from assms have wf: "Buffer_wf b" and fi: "Fifo_inv (abstraction b)"
    by (simp_all add: Buffer_inv_iff)
  obtain b' where "Buffer_write b d = Inr b'" "Buffer_wf b'"
      "abstraction b' = Fifo_write (abstraction b) d"
    using Buffer_write_abs [OF wf, of d] by blast
  with Fifo_inv_write [OF fi, of d] show ?thesis
    by (auto simp: Buffer_inv_iff)
qed

lemma Buffer_inv_read:
  assumes "Buffer_inv b"
  shows "Buffer_inv (snd (Buffer_read b n))"
proof -
  from assms have wf: "Buffer_wf b" and fi: "Fifo_inv (abstraction b)"
    by (simp_all add: Buffer_inv_iff)
  from Buffer_read_ok [OF wf, of n] Fifo_inv_read [OF fi, of n] show ?thesis
    by (simp add: Buffer_inv_iff)
qed

lemma Buffer_inv_ack:
  assumes "Buffer_inv b"
    and "(0 \<le> n \<and> n \<le> readCount b) \<or> int (view_length (queued b)) \<le> n"
  shows "Buffer_inv (Buffer_ack b n)"
proof -
  from assms have wf: "Buffer_wf b" and fi: "Fifo_inv (abstraction b)"
    by (simp_all add: Buffer_inv_iff)
  have "(0 \<le> n \<and> n \<le> fst (snd (abstraction b))) \<or> int (length (fst (abstraction b))) \<le> n"
    using assms(2) length_queued_bytes [OF wf] by (simp add: abstraction_def)
  from Fifo_inv_ack [OF fi this] Buffer_ack_ok [OF wf, of n] show ?thesis
    by (simp add: Buffer_inv_iff)
qed

lemma Buffer_ack_partial:
  assumes "0 \<le> n" "n < int (view_length (queued b))"
  shows "Buffer_ack b n =
           b\<lparr>queued := \<lparr>byteOffset = byteOffset (queued b) + nat n,
                         view_length = view_length (queued b) - nat n\<rparr>,
             readCount := readCount b - n\<rparr>"
  using assms
  by (simp add: Buffer_ack_def subarray_from_def subarray_def Let_def relative_index_nonneg)

text \<open>
  Claim C1, as amended. A new buffer satisfies the invariant
  \<open>0 \<le> readCursor \<le> len(queued) \<le> capacity\<close>, and from a state that satisfies it:
  \<^verbatim>\<open>write\<close> returns without an exception and keeps it; \<^verbatim>\<open>read\<close> keeps it; \<^verbatim>\<open>ack(k)\<close> keeps it
  when \<open>k\<close> is at most the bytes read and not yet acknowledged (\<open>0 \<le> k \<le> readCursor\<close>) or
  at least \<open>len(queued)\<close>. For \<open>0 \<le> k < len(queued)\<close>, \<^verbatim>\<open>ack(k)\<close> moves the start of the queue
  forward by \<open>k\<close> and sets the read count to \<open>readCursor - k\<close>, with no clamp at 0; storage and
  free view are unchanged.
\<close>

theorem C1_invariant_preserved:
  "Buffer_inv (new_Buffer aa) \<and>
   (Buffer_inv b \<longrightarrow>
      (\<exists>b'. Buffer_write b d = Inr b' \<and> Buffer_inv b') \<and>
      Buffer_inv (snd (Buffer_read b n)) \<and>
      ((0 \<le> k \<and> k \<le> readCount b) \<or> int (view_length (queued b)) \<le> k
         \<longrightarrow> Buffer_inv (Buffer_ack b k)) \<and>
      (0 \<le> k \<and> k < int (view_length (queued b))
         \<longrightarrow> queued (Buffer_ack b k) =
               \<lparr>byteOffset = byteOffset (queued b) + nat k,
                view_length = view_length (queued b) - nat k\<rparr> \<and>
             readCount (Buffer_ack b k) = readCount b - k \<and>
             u8 (Buffer_ack b k) = u8 b \<and> free (Buffer_ack b k) = free b))"
proof (intro conjI impI)
  show "Buffer_inv (new_Buffer aa)" by (rule Buffer_inv_new)
next
  assume "Buffer_inv b"
  then show "\<exists>b'. Buffer_write b d = Inr b' \<and> Buffer_inv b'" by (rule Buffer_inv_write)
next
  assume "Buffer_inv b"
  then show "Buffer_inv (snd (Buffer_read b n))" by (rule Buffer_inv_read)
next
  assume "Buffer_inv b"
    and "(0 \<le> k \<and> k \<le> readCount b) \<or> int (view_length (queued b)) \<le> k"
  then show "Buffer_inv (Buffer_ack b k)" by (rule Buffer_inv_ack)
next
  assume k: "0 \<le> k \<and> k < int (view_length (queued b))"
  then have eq: "Buffer_ack b k =
           b\<lparr>queued := \<lparr>byteOffset = byteOffset (queued b) + nat k,
                         view_length = view_length (queued b) - nat k\<rparr>,
             readCount := readCount b - k\<rparr>"
    by (intro Buffer_ack_partial) simp_all
  show "queued (Buffer_ack b k) =
               \<lparr>byteOffset = byteOffset (queued b) + nat k,
                view_length = view_length (queued b) - nat k\<rparr>"
    by (simp add: eq)
  show "readCount (Buffer_ack b k) = readCount b - k" by (simp add: eq)
  show "u8 (Buffer_ack b k) = u8 b" by (simp add: eq)
  show "free (Buffer_ack b k) = free b" by (simp add: eq)
qed

lemmas eval_defs = new_Buffer_def Buffer_write_def write_append_def set_bytes_def
     Buffer_read_def Buffer_ack_def Let_def subarray_def subarray_from_def Uint8Array_def ArrayBuffer_def
     view_bytes_def relative_index_def write_make_room_def

lemma run_B0: "run (new_Buffer False) [Write [1, 2, 3, 4, 5], Read 3] = Inr ([[1, 2, 3]], B0)"
  by (simp add: B0_def eval_defs)

theorem C1_invariant_preserved_witness:
  "run (new_Buffer False) [Write [1, 2, 3, 4, 5], Read 3] = Inr ([[1, 2, 3]], B0) \<and>
   Buffer_inv B0 \<and>
   (0 \<le> (2::int) \<and> 2 \<le> readCount B0) \<and> 2 < int (view_length (queued B0)) \<and>
   map_option Buffer_inv (final (run B0 [Write [6]])) = Some True \<and>
   Buffer_inv (snd (Buffer_read B0 1)) \<and>
   Buffer_inv (Buffer_ack B0 2) \<and>
   queued (Buffer_ack B0 2) = \<lparr>byteOffset = 2, view_length = 3\<rparr> \<and>
   readCount (Buffer_ack B0 2) = 1"
proof -
  have inv: "Buffer_inv B0"
    by (simp add: Buffer_inv_def Buffer_wf_def B0_def)
  have k: "0 \<le> (2::int) \<and> 2 \<le> readCount B0" "(0::int) \<le> 2 \<and> 2 < int (view_length (queued B0))"
    by (simp_all add: B0_def)
  from C1_invariant_preserved [of False B0 "[6]" 1 2] inv k
  have w: "\<exists>b'. Buffer_write B0 [6] = Inr b' \<and> Buffer_inv b'"
    and r: "Buffer_inv (snd (Buffer_read B0 1))"
    and a: "Buffer_inv (Buffer_ack B0 2)"
    and q: "queued (Buffer_ack B0 2) =
               \<lparr>byteOffset = byteOffset (queued B0) + nat 2,
                view_length = view_length (queued B0) - nat 2\<rparr>"
           "readCount (Buffer_ack B0 2) = readCount B0 - 2"
    by simp_all
  from w have "map_option Buffer_inv (final (run B0 [Write [6]])) = Some True"
    by (auto simp: final_def)
  with run_B0 inv k r a q show ?thesis
    by (simp add: B0_def)
qed

text \<open>
  Claim C1 as stated fails: on a new buffer, \<^verbatim>\<open>write\<close> of five bytes and \<^verbatim>\<open>ack(3)\<close> with
  nothing read (\<open>3 < len(queued) = 5\<close>) leave the read count at \<open>-3\<close>, outside the invariant.
\<close>

theorem C1_ack_unread_counterexample:
  "map_option readCount (final (run (new_Buffer False) [Write [1, 2, 3, 4, 5], Ack 3]))
     = Some (- 3) \<and>
   map_option Buffer_inv (final (run (new_Buffer False) [Write [1, 2, 3, 4, 5], Ack 3]))
     = Some False"
  by (simp add: final_def Buffer_inv_def eval_defs)

lemma length_view_bytes:
  "byteOffset v + view_length v \<le> length store \<Longrightarrow> length (view_bytes store v) = view_length v"
  by (simp add: view_bytes_def)

lemma Buffer_read_manual:
  assumes "Buffer_wf b" "\<not> autoack b"
  shows "snd (Buffer_read b n) = b\<lparr>readCount := readCount b + int (length (fst (Buffer_read b n)))\<rparr>"
proof -
  let ?ret = "subarray (queued b) (readCount b) (readCount b + n)"
  have "byteOffset ?ret + view_length ?ret \<le> length (u8 b)"
    using subarray_within [of "queued b" "readCount b" "readCount b + n"] assms(1)
    by (simp add: Buffer_wf_def)
  then have "length (view_bytes (u8 b) ?ret) = view_length ?ret"
    by (rule length_view_bytes)
  with assms(2) show ?thesis
    by (simp add: Buffer_read_def Let_def)
qed

lemma Buffer_ack_read_bytes:
  assumes "Buffer_inv b" "0 \<le> n" "n \<le> readCount b"
  shows "int (view_length (queued (Buffer_ack b n))) = int (view_length (queued b)) - n \<and>
         readCount (Buffer_ack b n) = readCount b - n \<and>
         autoack (Buffer_ack b n) = autoack b"
proof (cases "n < int (view_length (queued b))")
  case True
  with assms(2) show ?thesis
    by (simp add: Buffer_ack_partial)
next
  case False
  with assms have "n = int (view_length (queued b))" "readCount b = n"
    by (simp_all add: Buffer_inv_def)
  with False show ?thesis
    by (simp add: Buffer_ack_def Let_def subarray_def Uint8Array_def)
qed

lemma conforming_counts:
  assumes "Buffer_inv b" "\<not> autoack b" "conforming b ops"
  shows "\<exists>rs b'. run b ops = Inr (rs, b') \<and> Buffer_inv b' \<and> \<not> autoack b' \<and>
           int (view_length (queued b')) = int (view_length (queued b)) + written ops - acked ops \<and>
           Buffer_getQueuedBytes b' = Buffer_getQueuedBytes b + written ops - returned rs"
  using assms
proof (induction ops arbitrary: b)
  case Nil
  then show ?case by (simp add: returned_def)
next
  case (Cons x ops)
  from Cons.prems(1) have wf: "Buffer_wf b" by (simp add: Buffer_inv_def)
  show ?case
  proof (cases x)
    case (Write d)
    obtain b1 where b1: "Buffer_write b d = Inr b1" "Buffer_wf b1"
        "view_length (queued b1) = view_length (queued b) + length d"
        "readCount b1 = readCount b" "autoack b1 = autoack b"
      using Buffer_write_ok [OF wf, of d] by blast
    have inv1: "Buffer_inv b1"
      using Buffer_inv_write [OF Cons.prems(1), of d] b1(1) by auto
    have conf1: "conforming b1 ops"
      using Cons.prems(3) Write b1(1) by simp
    have aa1: "\<not> autoack b1" using b1(5) Cons.prems(2) by simp
    from Cons.IH [OF inv1 aa1 conf1] obtain rs b' where
      "run b1 ops = Inr (rs, b')" "Buffer_inv b'" "\<not> autoack b'"
      "int (view_length (queued b')) = int (view_length (queued b1)) + written ops - acked ops"
      "Buffer_getQueuedBytes b' = Buffer_getQueuedBytes b1 + written ops - returned rs"
      by blast
    with b1 Write show ?thesis
      by (simp add: Buffer_getQueuedBytes_def)
  next
    case (Read n)
    let ?r = "fst (Buffer_read b n)" and ?b1 = "snd (Buffer_read b n)"
    have b1: "?b1 = b\<lparr>readCount := readCount b + int (length ?r)\<rparr>"
      using Buffer_read_manual [OF wf Cons.prems(2)] .
    have inv1: "Buffer_inv ?b1" using Cons.prems(1) by (rule Buffer_inv_read)
    have aa1: "\<not> autoack ?b1" using Cons.prems(2) by (subst b1) simp
    have conf1: "conforming ?b1 ops" using Cons.prems(3) Read by simp
    from Cons.IH [OF inv1 aa1 conf1] obtain rs b' where r:
      "run ?b1 ops = Inr (rs, b')" "Buffer_inv b'" "\<not> autoack b'"
      "int (view_length (queued b')) = int (view_length (queued ?b1)) + written ops - acked ops"
      "Buffer_getQueuedBytes b' = Buffer_getQueuedBytes ?b1 + written ops - returned rs"
      by blast
    have "view_length (queued ?b1) = view_length (queued b)"
      "Buffer_getQueuedBytes ?b1 = Buffer_getQueuedBytes b - int (length ?r)"
      by (subst b1, simp add: Buffer_getQueuedBytes_def)+
    with r Read show ?thesis
      by (simp add: returned_def)
  next
    case (Ack n)
    from Cons.prems(3) Ack have n: "0 \<le> n" "n \<le> readCount b" and conf1: "conforming (Buffer_ack b n) ops"
      by simp_all
    have inv1: "Buffer_inv (Buffer_ack b n)"
      using Cons.prems(1) n by (intro Buffer_inv_ack) simp_all
    from Buffer_ack_read_bytes [OF Cons.prems(1) n]
    have a: "int (view_length (queued (Buffer_ack b n))) = int (view_length (queued b)) - n"
      "readCount (Buffer_ack b n) = readCount b - n" "autoack (Buffer_ack b n) = autoack b"
      by simp_all
    have aa1: "\<not> autoack (Buffer_ack b n)" using a(3) Cons.prems(2) by simp
    from Cons.IH [OF inv1 aa1 conf1] obtain rs b' where
      "run (Buffer_ack b n) ops = Inr (rs, b')" "Buffer_inv b'" "\<not> autoack b'"
      "int (view_length (queued b')) = int (view_length (queued (Buffer_ack b n))) + written ops - acked ops"
      "Buffer_getQueuedBytes b' = Buffer_getQueuedBytes (Buffer_ack b n) + written ops - returned rs"
      by blast
    with a Ack show ?thesis
      by (simp add: Buffer_getQueuedBytes_def)
  qed
qed

lemma write_ack_only_counts:
  assumes "Buffer_wf b" "readCount b \<le> 0" "write_ack_only b ops"
  shows "\<exists>b'. run b ops = Inr ([], b') \<and> Buffer_wf b' \<and>
           int (view_length (queued b')) = int (view_length (queued b)) + written ops - acked ops \<and>
           readCount b' = - partly_acked (int (view_length (queued b))) (- readCount b) ops \<and>
           readCount b' \<le> 0"
  using assms
proof (induction ops arbitrary: b)
  case Nil
  then show ?case by simp
next
  case (Cons x ops)
  show ?case
  proof (cases x)
    case (Write d)
    obtain b1 where b1: "Buffer_write b d = Inr b1" "Buffer_wf b1"
        "view_length (queued b1) = view_length (queued b) + length d"
        "readCount b1 = readCount b"
      using Buffer_write_ok [OF Cons.prems(1), of d] by blast
    have c1: "write_ack_only b1 ops" using Cons.prems(3) Write b1(1) by simp
    have r1: "readCount b1 \<le> 0" using b1(4) Cons.prems(2) by simp
    from Cons.IH [OF b1(2) r1 c1] obtain b' where
      "run b1 ops = Inr ([], b')" "Buffer_wf b'"
      "int (view_length (queued b')) = int (view_length (queued b1)) + written ops - acked ops"
      "readCount b' = - partly_acked (int (view_length (queued b1))) (- readCount b1) ops"
      "readCount b' \<le> 0"
      by blast
    with b1 Write show ?thesis by simp
  next
    case (Read n)
    with Cons.prems(3) show ?thesis by simp
  next
    case (Ack n)
    from Cons.prems(3) Ack have n: "0 \<le> n" "n \<le> int (view_length (queued b))"
      and c1: "write_ack_only (Buffer_ack b n) ops" by simp_all
    have wf1: "Buffer_wf (Buffer_ack b n)"
      using Buffer_ack_ok [OF Cons.prems(1), of n] by simp
    show ?thesis
    proof (cases "n < int (view_length (queued b))")
      case True
      have a: "int (view_length (queued (Buffer_ack b n))) = int (view_length (queued b)) - n"
          "readCount (Buffer_ack b n) = readCount b - n"
        using n(1) True by (simp_all add: Buffer_ack_partial)
      have r1: "readCount (Buffer_ack b n) \<le> 0" using a(2) n(1) Cons.prems(2) by simp
      from Cons.IH [OF wf1 r1 c1] obtain b' where
        "run (Buffer_ack b n) ops = Inr ([], b')" "Buffer_wf b'"
        "int (view_length (queued b')) =
           int (view_length (queued (Buffer_ack b n))) + written ops - acked ops"
        "readCount b' = - partly_acked (int (view_length (queued (Buffer_ack b n))))
                            (- readCount (Buffer_ack b n)) ops"
        "readCount b' \<le> 0"
        by blast
      with a True Ack show ?thesis by simp
    next
      case False
      have a: "view_length (queued (Buffer_ack b n)) = 0" "readCount (Buffer_ack b n) = 0"
        using False by (simp_all add: Buffer_ack_def Let_def subarray_def Uint8Array_def)
      have r1: "readCount (Buffer_ack b n) \<le> 0" using a(2) by simp
      from False n(2) have e: "n = int (view_length (queued b))" by simp
      from Cons.IH [OF wf1 r1 c1] obtain b' where
        "run (Buffer_ack b n) ops = Inr ([], b')" "Buffer_wf b'"
        "int (view_length (queued b')) =
           int (view_length (queued (Buffer_ack b n))) + written ops - acked ops"
        "readCount b' = - partly_acked (int (view_length (queued (Buffer_ack b n))))
                            (- readCount (Buffer_ack b n)) ops"
        "readCount b' \<le> 0"
        by blast
      with a False Ack e show ?thesis by simp
    qed
  qed
qed

text \<open>
  Claim C2, as amended. For every sequence of \<^verbatim>\<open>write\<close> and \<^verbatim>\<open>ack\<close> calls on a new buffer, with
  no \<^verbatim>\<open>read\<close> and every \<^verbatim>\<open>ack\<close> amount between 0 and the bytes then queued, no call throws;
  \<open>len(queued)\<close> equals the bytes written minus the bytes acknowledged; \<^verbatim>\<open>getQueuedBytes()\<close>
  equals that difference plus the bytes released by partial acknowledgements since the
  buffer was last emptied, so it equals the difference when there are none; and both are
  at least 0.
\<close>

theorem C2_queued_counts:
  assumes "write_ack_only (new_Buffer False) ops"
  shows "\<exists>b'. run (new_Buffer False) ops = Inr ([], b') \<and>
           int (view_length (queued b')) = written ops - acked ops \<and>
           Buffer_getQueuedBytes b' = written ops - acked ops + partly_acked 0 0 ops \<and>
           0 \<le> partly_acked 0 0 ops \<and>
           0 \<le> written ops - acked ops \<and>
           0 \<le> Buffer_getQueuedBytes b'"
proof -
  have wf: "Buffer_wf (new_Buffer False)" by (rule Buffer_wf_new)
  have z: "view_length (queued (new_Buffer False)) = 0" "readCount (new_Buffer False) = 0"
    by (simp_all add: new_Buffer_def Let_def subarray_def Uint8Array_def)
  have rc: "readCount (new_Buffer False) \<le> 0" by (simp add: z)
  from write_ack_only_counts [OF wf rc assms] obtain b' where
    r: "run (new_Buffer False) ops = Inr ([], b')"
      "int (view_length (queued b')) = int (view_length (queued (new_Buffer False))) + written ops - acked ops"
      "readCount b' = - partly_acked (int (view_length (queued (new_Buffer False)))) (- readCount (new_Buffer False)) ops"
      "readCount b' \<le> 0"
    by blast
  have l: "int (view_length (queued b')) = written ops - acked ops" using r(2) by (simp add: z)
  have p: "readCount b' = - partly_acked 0 0 ops" using r(3) by (simp add: z)
  have "0 \<le> written ops - acked ops" using l by linarith
  with r(1,4) l p show ?thesis
    by (simp add: Buffer_getQueuedBytes_def)
qed

theorem C2_queued_counts_witness:
  "write_ack_only (new_Buffer False)
     [Write [1, 2, 3, 4, 5], Ack 3, Write [6], Ack 3, Write [7, 8], Ack 1] \<and>
   map_option Buffer_getQueuedBytes (final (run (new_Buffer False)
     [Write [1, 2, 3, 4, 5], Ack 3, Write [6], Ack 3, Write [7, 8], Ack 1])) = Some 2 \<and>
   map_option (view_length \<circ> queued) (final (run (new_Buffer False)
     [Write [1, 2, 3, 4, 5], Ack 3, Write [6], Ack 3, Write [7, 8], Ack 1])) = Some 1 \<and>
   write_ack_only (new_Buffer False) [Write [1, 2, 3, 4, 5], Ack 5, Write [6], Ack 1] \<and>
   map_option Buffer_getQueuedBytes (final (run (new_Buffer False)
     [Write [1, 2, 3, 4, 5], Ack 5, Write [6], Ack 1])) = Some 0"
proof -
  let ?ops = "[Write [1, 2, 3, 4, 5], Ack 3, Write [6], Ack 3, Write [7, 8], Ack 1]"
  let ?full = "[Write [1, 2, 3, 4, 5], Ack 5, Write [6], Ack 1]"
  have c: "write_ack_only (new_Buffer False) ?ops"
    by (simp add: eval_defs)
  have c': "write_ack_only (new_Buffer False) ?full"
    by (simp add: eval_defs)
  from C2_queued_counts [OF c] obtain b where
    b: "run (new_Buffer False) ?ops = Inr ([], b)"
      "int (view_length (queued b)) = written ?ops - acked ?ops"
      "Buffer_getQueuedBytes b = written ?ops - acked ?ops + partly_acked 0 0 ?ops"
    by blast
  from C2_queued_counts [OF c'] obtain b' where
    b': "run (new_Buffer False) ?full = Inr ([], b')"
      "Buffer_getQueuedBytes b' = written ?full - acked ?full + partly_acked 0 0 ?full"
    by blast
  have 1: "map_option Buffer_getQueuedBytes (final (run (new_Buffer False) ?ops)) = Some 2"
    unfolding b(1) using b(3) by (simp add: final_def)
  have 2: "map_option (view_length \<circ> queued) (final (run (new_Buffer False) ?ops)) = Some 1"
    unfolding b(1) using b(2) by (simp add: final_def)
  have 3: "map_option Buffer_getQueuedBytes (final (run (new_Buffer False) ?full)) = Some 0"
    unfolding b'(1) using b'(2) by (simp add: final_def)
  show ?thesis by (intro conjI) (rule c c' 1 2 3)+
qed

text \<open>
  Claim C2 as stated fails: after \<^verbatim>\<open>write\<close> of five bytes and \<^verbatim>\<open>ack(3)\<close>, with no read
  (\<open>3\<close> is at most the five bytes queued), written minus acknowledged is \<open>2\<close> and
  \<^verbatim>\<open>getQueuedBytes()\<close> is \<open>5\<close>: the partial \<^verbatim>\<open>ack\<close> lowers \<open>len(queued)\<close> and the read count by
  the same amount.
\<close>

theorem C2_ack_unread_counterexample:
  "written [Write [1, 2, 3, 4, 5], Ack 3] - acked [Write [1, 2, 3, 4, 5], Ack 3] = 2 \<and>
   map_option Buffer_getQueuedBytes
     (final (run (new_Buffer False) [Write [1, 2, 3, 4, 5], Ack 3])) = Some 5"
  by (simp add: final_def Buffer_getQueuedBytes_def eval_defs)

lemma run_outputs:
  assumes "Buffer_wf b"
  shows "outputs (run b ops) = Some (fst (Fifo_run (abstraction b) ops))"
  using run_simulation [OF assms, of ops] by (auto simp: outputs_def)

text \<open>
  Claim C5, as amended. For every buffer state and every \<^verbatim>\<open>write(bytes)\<close> whose length exceeds
  the free space, \<^verbatim>\<open>write\<close> returns without an exception; the storage is replaced by one of
  \<open>(\<lfloor>(len(queued) + len(bytes)) / 1024\<rfloor> + 1) * 1024\<close> bytes (the least multiple of 1024
  strictly greater than the total) when the total exceeds the capacity, and is kept
  otherwise; in both cases the queued bytes are moved to the front of the storage and the
  new bytes follow them. Every later sequence of calls returns from its reads the same
  bytes as on a buffer that has no storage at all, and the same bytes as after the same
  \<^verbatim>\<open>write\<close> on any buffer that held the same bytes with room to spare, where nothing is
  reallocated or moved.
\<close>

theorem C5_write_grows:
  assumes wf: "Buffer_wf b" and full: "view_length (free b) < length d"
  shows "\<exists>b'. Buffer_write b d = Inr b' \<and>
           byteLength b' =
             (if byteLength b < view_length (queued b) + length d
              then ((view_length (queued b) + length d) div 1024 + 1) * 1024
              else byteLength b) \<and>
           view_length (queued b) + length d \<le> byteLength b' \<and>
           queued b' = \<lparr>byteOffset = 0, view_length = view_length (queued b) + length d\<rparr> \<and>
           take (view_length (queued b)) (u8 b') = queued_bytes b \<and>
           queued_bytes b' = queued_bytes b @ d \<and>
           readCount b' = readCount b \<and>
           (\<forall>ops. outputs (run b' ops)
                  = Some (fst (Fifo_run (queued_bytes b @ d, readCount b, autoack b) ops))) \<and>
           (\<forall>b0 ops. Buffer_wf b0 \<and> abstraction b0 = abstraction b \<and>
                      length d \<le> view_length (free b0) \<longrightarrow>
                (\<exists>b0'. Buffer_write b0 d = Inr b0' \<and> byteLength b0' = byteLength b0 \<and>
                       byteOffset (queued b0') = byteOffset (queued b0) \<and>
                       outputs (run b' ops) = outputs (run b0' ops)))"
proof -
  let ?ql = "view_length (queued b)"
  obtain b' where b': "Buffer_write b d = Inr b'" "Buffer_wf b'"
      "queued_bytes b' = queued_bytes b @ d"
      "view_length (queued b') = ?ql + length d"
      "byteOffset (queued b') = 0"
      "readCount b' = readCount b" "autoack b' = autoack b"
      "length (u8 b') =
             (if length (u8 b) < ?ql + length d
              then ((?ql + length d) div 1024 + 1) * 1024
              else length (u8 b))"
    using Buffer_write_ok [OF wf, of d] full by auto
  have q': "queued b' = \<lparr>byteOffset = 0, view_length = ?ql + length d\<rparr>"
    using b'(4,5) by (cases "queued b'") simp
  have cap: "?ql + length d \<le> byteLength b'"
    using b'(2) q' by (simp add: Buffer_wf_def byteLength_def)
  have qlen: "length (queued_bytes b) = ?ql"
    using wf by (rule length_queued_bytes)
  have "take ?ql (queued_bytes b') = queued_bytes b"
    using qlen by (simp add: b'(3))
  then have front: "take ?ql (u8 b') = queued_bytes b"
    by (simp add: queued_bytes_def view_bytes_def q' min_def)
  have abs': "abstraction b' = (queued_bytes b @ d, readCount b, autoack b)"
    using b'(3,6,7) by (simp add: abstraction_def)
  have out: "outputs (run b' ops) = Some (fst (Fifo_run (queued_bytes b @ d, readCount b, autoack b) ops))" for ops
    using run_outputs [OF b'(2), of ops] by (simp add: abs')
  have same: "\<exists>b0'. Buffer_write b0 d = Inr b0' \<and> byteLength b0' = byteLength b0 \<and>
                       byteOffset (queued b0') = byteOffset (queued b0) \<and>
                       outputs (run b' ops) = outputs (run b0' ops)"
    if h: "Buffer_wf b0 \<and> abstraction b0 = abstraction b \<and> length d \<le> view_length (free b0)" for b0 ops
  proof -
    from h have wf0: "Buffer_wf b0" and a0: "abstraction b0 = abstraction b"
      and room: "length d \<le> view_length (free b0)" by simp_all
    obtain b0' where b0': "Buffer_write b0 d = Inr b0'" "Buffer_wf b0'"
        "queued_bytes b0' = queued_bytes b0 @ d"
        "readCount b0' = readCount b0" "autoack b0' = autoack b0"
        "length (u8 b0') = length (u8 b0)" "byteOffset (queued b0') = byteOffset (queued b0)"
      using Buffer_write_ok [OF wf0, of d] room by auto
    have "abstraction b0' = abstraction b'"
      using b0'(3,4,5) a0 abs' by (simp add: abstraction_def)
    then have "outputs (run b0' ops) = outputs (run b' ops)"
      using run_outputs [OF b0'(2), of ops] run_outputs [OF b'(2), of ops] by simp
    with b0'(1,6,7) show ?thesis by (auto simp: byteLength_def)
  qed
  from b' q' cap front out same show ?thesis
    by (auto simp: byteLength_def)
qed

lemma run_Bfull: "run (new_Buffer False) [Write (replicate 32768 1)] = Inr ([], Bfull)"
  by (simp add: Bfull_def eval_defs)

theorem C5_write_grows_witness:
  "run (new_Buffer False) [Write (replicate 32768 1)] = Inr ([], Bfull) \<and>
   Buffer_wf Bfull \<and> view_length (free Bfull) < length (replicate 1024 (2::byte)) \<and>
   (Buffer_wf Broomy \<and> abstraction Broomy = abstraction Bfull \<and>
      length (replicate 1024 (2::byte)) \<le> view_length (free Broomy)) \<and>
   map_option byteLength (final (run Bfull [Write (replicate 1024 2)])) = Some 34816 \<and>
   outputs (run Bfull [Write (replicate 1024 2), Read 32768, Read 2000])
     = Some [replicate 32768 1, replicate 1024 2] \<and>
   outputs (run Broomy [Write (replicate 1024 2), Read 32768, Read 2000])
     = Some [replicate 32768 1, replicate 1024 2]"
proof -
  let ?d = "replicate 1024 (2::byte)"
  have wf: "Buffer_wf Bfull" by (simp add: Buffer_wf_def Bfull_def)
  have full: "view_length (free Bfull) < length ?d" by (simp add: Bfull_def)
  have h0: "Buffer_wf Broomy \<and> abstraction Broomy = abstraction Bfull \<and>
      length ?d \<le> view_length (free Broomy)"
    by (simp add: Buffer_wf_def Bfull_def Broomy_def abstraction_def queued_bytes_def view_bytes_def)
  have q: "queued_bytes Bfull = replicate 32768 1" "byteLength Bfull = 32768" "view_length (queued Bfull) = 32768"
    "readCount Bfull = 0" "autoack Bfull = False"
    by (simp_all add: Bfull_def queued_bytes_def view_bytes_def byteLength_def)
  obtain b' where b': "Buffer_write Bfull ?d = Inr b'" "byteLength b' = 34816"
    "\<forall>ops. outputs (run b' ops)
                  = Some (fst (Fifo_run (replicate 32768 1 @ ?d, 0, False) ops))"
    "\<forall>b0 ops. Buffer_wf b0 \<and> abstraction b0 = abstraction Bfull \<and>
                      length ?d \<le> view_length (free b0) \<longrightarrow>
                (\<exists>b0'. Buffer_write b0 ?d = Inr b0' \<and> byteLength b0' = byteLength b0 \<and>
                       byteOffset (queued b0') = byteOffset (queued b0) \<and>
                       outputs (run b' ops) = outputs (run b0' ops))"
    using C5_write_grows [OF wf full] unfolding q by auto
  have f: "fst (Fifo_run (replicate 32768 1 @ ?d, 0, False) [Read 32768, Read 2000])
             = [replicate 32768 1, ?d]"
    by (simp add: list_subarray_def relative_index_def Let_def)
  have r1: "outputs (run b' [Read 32768, Read 2000]) = Some [replicate 32768 1, ?d]"
    using b'(3) [rule_format, of "[Read 32768, Read 2000]"] unfolding f .
  have o1: "outputs (run Bfull [Write ?d, Read 32768, Read 2000]) = Some [replicate 32768 1, ?d]"
    unfolding run.simps(2) b'(1) sum.case by (rule r1)
  from b'(4) h0 obtain b0' where b0': "Buffer_write Broomy ?d = Inr b0'"
      "outputs (run b' [Read 32768, Read 2000]) = outputs (run b0' [Read 32768, Read 2000])"
    by blast
  have o2: "outputs (run Broomy [Write ?d, Read 32768, Read 2000]) = Some [replicate 32768 1, ?d]"
    unfolding run.simps(2) b0'(1) sum.case b0'(2) [symmetric] by (rule r1)
  from b'(1,2) have "map_option byteLength (final (run Bfull [Write ?d])) = Some 34816"
    by (simp add: final_def)
  with run_Bfull wf full h0 o1 o2 show ?thesis by simp
qed

text \<open>
  Claim C5 as stated fails, in two ways. A new buffer filled by a \<^verbatim>\<open>write\<close> of 32768 bytes has
  no free space; a \<^verbatim>\<open>write\<close> of 1024 more bytes makes the total \<open>33792 = 33 * 1024\<close>, itself
  1KB-aligned, and the storage becomes \<open>34816\<close> bytes. And when, after that first \<^verbatim>\<open>write\<close>,
  32000 bytes are read and acknowledged, a \<^verbatim>\<open>write\<close> of 100 bytes still exceeds the free
  space (none), the total is 868, and the storage stays at \<open>32768\<close> bytes.
\<close>

theorem C5_reallocation_counterexample:
  "map_option (view_length \<circ> free) (final (run (new_Buffer False) [Write (replicate 32768 1)]))
     = Some 0 \<and>
   map_option byteLength
     (final (run (new_Buffer False) [Write (replicate 32768 1), Write (replicate 1024 2)]))
     = Some 34816 \<and>
   next_1k_aligned (32768 + 1024) = 33792 \<and>
   map_option (view_length \<circ> free)
     (final (run (new_Buffer False) [Write (replicate 32768 1), Read 32000, Ack 32000]))
     = Some 0 \<and>
   map_option (view_length \<circ> queued)
     (final (run (new_Buffer False) [Write (replicate 32768 1), Read 32000, Ack 32000]))
     = Some 768 \<and>
   map_option byteLength
     (final (run (new_Buffer False)
        [Write (replicate 32768 1), Read 32000, Ack 32000, Write (replicate 100 2)]))
     = Some 32768 \<and>
   next_1k_aligned (768 + 100) = 1024"
  by (simp add: final_def byteLength_def next_1k_aligned_def eval_defs)

lemma list_subarray_nat:
  assumes "a \<le> length q"
  shows "list_subarray q (int a) (int a + int n) = take n (drop a q)"
proof -
  have "int a + int n = int (a + n)" by simp
  then have "list_subarray q (int a) (int a + int n)
             = take (min (a + n) (length q) - a) (drop a q)"
    using assms by (simp only: list_subarray_def Let_def relative_index_nat) (simp add: min_def)
  also have "\<dots> = take n (drop a q)"
    using assms by (cases "a + n \<le> length q") (simp_all add: min_def)
  finally show ?thesis .
qed

lemma list_subarray_to_end:
  "list_subarray q (int n) (int (length q)) = drop n q"
  by (cases "n \<le> length q") (simp_all add: list_subarray_def Let_def min_def)

lemma Fifo_ack_nat:
  "Fifo_ack (q, c, aa) (int n) =
     (if n < length q then (drop n q, c - int n, aa) else ([], 0, aa))"
  by (simp add: list_subarray_to_end)

lemma Fifo_read_nat:
  assumes "a \<le> length q" and "k = length (take n (drop a q))"
  shows "Fifo_read (q, int a, aa) (int n) =
           (take n (drop a q),
            if aa then Fifo_ack (q, int a + int k, aa) (int k)
            else (q, int a + int k, aa))"
  by (simp only: Fifo_read.simps Let_def list_subarray_nat [OF assms(1)] assms(2))

lemma Fifo_take_manual:
  assumes "Fifo_inv (q, rc, False)"
  shows "fst (Fifo_read (q, rc, False) (int n)) = take n (Fifo_unread (q, rc, False)) \<and>
         Fifo_inv (Fifo_ack (snd (Fifo_read (q, rc, False) (int n))) (int n)) \<and>
         \<not> snd (snd (Fifo_ack (snd (Fifo_read (q, rc, False) (int n))) (int n))) \<and>
         Fifo_unread (Fifo_ack (snd (Fifo_read (q, rc, False) (int n))) (int n))
           = drop n (Fifo_unread (q, rc, False))"
proof -
  from assms obtain a where a: "rc = int a" "a \<le> length q"
    by (auto simp: Fifo_inv_def dest: zero_le_imp_eq_int)
  define k where "k = length (take n (drop a q))"
  have kk: "k = min n (length q - a)" by (simp add: k_def)
  have rd: "Fifo_read (q, rc, False) (int n) = (take n (drop a q), q, int a + int k, False)"
    unfolding a(1) using Fifo_read_nat [OF a(2) k_def, of False] by simp
  have un: "Fifo_unread (q, rc, False) = drop a q"
    by (simp add: Fifo_unread_def a(1))
  have ak: "Fifo_ack (q, int a + int k, False) (int n) =
     (if n < length q then (drop n q, int a + int k - int n, False) else ([], 0, False))"
    by (rule Fifo_ack_nat)
  have r: "Fifo_ack (snd (Fifo_read (q, rc, False) (int n))) (int n) =
     (if n < length q then (drop n q, int a + int k - int n, False) else ([], 0, False))"
    unfolding rd snd_conv by (rule ak)
  have f: "fst (Fifo_read (q, rc, False) (int n)) = take n (Fifo_unread (q, rc, False))"
    unfolding rd un by simp
  show ?thesis
  proof (cases "n < length q")
    case False
    then have "drop n (drop a q) = []" by simp
    with False f show ?thesis
      unfolding r un by (simp add: Fifo_inv_def Fifo_unread_def)
  next
    case True
    show ?thesis
    proof (cases "n \<le> length q - a")
      case full: True
      then have c: "int a + int k - int n = int a" by (simp add: kk)
      have "drop a (drop n q) = drop n (drop a q)" by (simp add: add.commute)
      moreover have "a \<le> length q - n" using full a(2) by simp
      ultimately show ?thesis
        using True f unfolding r un c
        by (simp add: Fifo_inv_def Fifo_unread_def)
    next
      case short: False
      then have c: "int a + int k - int n = int (length q - n)"
        using a(2) True by (simp add: kk)
      have "drop n (drop a q) = []" using short by simp
      with True f show ?thesis
        unfolding r un c
        by (simp add: Fifo_inv_def Fifo_unread_def)
    qed
  qed
qed

lemma Fifo_take_auto:
  assumes "Fifo_inv (q, rc, True)"
  shows "fst (Fifo_read (q, rc, True) (int n)) = take n (Fifo_unread (q, rc, True)) \<and>
         Fifo_inv (snd (Fifo_read (q, rc, True) (int n))) \<and>
         snd (snd (snd (Fifo_read (q, rc, True) (int n)))) \<and>
         Fifo_unread (snd (Fifo_read (q, rc, True) (int n)))
           = drop n (Fifo_unread (q, rc, True))"
proof -
  from assms obtain a where a: "rc = int a" "a \<le> length q"
    by (auto simp: Fifo_inv_def dest: zero_le_imp_eq_int)
  define k where "k = length (take n (drop a q))"
  have kk: "k = min n (length q - a)" by (simp add: k_def)
  have ak: "Fifo_ack (q, int a + int k, True) (int k) =
     (if k < length q then (drop k q, int a + int k - int k, True) else ([], 0, True))"
    by (rule Fifo_ack_nat)
  have rd: "Fifo_read (q, rc, True) (int n) =
     (take n (drop a q),
      if k < length q then (drop k q, int a, True) else ([], 0, True))"
    unfolding a(1) using Fifo_read_nat [OF a(2) k_def, of True] ak by simp
  have un: "Fifo_unread (q, rc, True) = drop a q"
    by (simp add: Fifo_unread_def a(1))
  show ?thesis
  proof (cases "k < length q")
    case False
    then have "drop n (drop a q) = []" using a(2) by (simp add: kk min_def split: if_splits)
    with False show ?thesis
      unfolding rd un fst_conv snd_conv by (simp add: Fifo_inv_def Fifo_unread_def)
  next
    case True
    have "drop a (drop k q) = drop n (drop a q)"
      unfolding kk by (cases "n \<le> length q - a") (simp_all add: min_def add.commute)
    moreover have "a \<le> length q - k" using a(2) unfolding kk by arith
    ultimately show ?thesis
      using True unfolding rd un fst_conv snd_conv
      by (simp add: Fifo_inv_def Fifo_unread_def)
  qed
qed

lemma Fifo_unread_write:
  assumes "Fifo_inv s"
  shows "Fifo_unread (Fifo_write s d) = Fifo_unread s @ d"
  using assms by (cases s) (auto simp: Fifo_inv_def Fifo_unread_def)

lemma Fifo_manual_run:
  assumes "Fifo_inv s" "\<not> snd (snd s)"
  shows "fst (Fifo_run s (manual_ops cs)) = queue_run (Fifo_unread s) cs"
  using assms
proof (induction cs arbitrary: s)
  case Nil
  then show ?case by simp
next
  case (Cons c cs)
  obtain q rc where s: "s = (q, rc, False)"
    using Cons.prems(2) by (cases s) auto
  show ?case
  proof (cases c)
    case (Put d)
    have "Fifo_inv (Fifo_write s d)" "\<not> snd (snd (Fifo_write s d))"
      using Cons.prems Fifo_inv_write [of s d] by (simp_all add: s)
    from Cons.IH [OF this] Fifo_unread_write [OF Cons.prems(1), of d] Put show ?thesis
      by simp
  next
    case (Take n)
    let ?s2 = "Fifo_ack (snd (Fifo_read s (int n))) (int n)"
    from Fifo_take_manual [of q rc n] Cons.prems(1)
    have t: "fst (Fifo_read s (int n)) = take n (Fifo_unread s)"
        "Fifo_inv ?s2" "\<not> snd (snd ?s2)" "Fifo_unread ?s2 = drop n (Fifo_unread s)"
      unfolding s by blast+
    from Cons.IH [OF t(2,3)] t(1,4) Take show ?thesis
      by simp
  qed
qed

lemma Fifo_auto_run:
  assumes "Fifo_inv s" "snd (snd s)"
  shows "fst (Fifo_run s (auto_ops cs)) = queue_run (Fifo_unread s) cs"
  using assms
proof (induction cs arbitrary: s)
  case Nil
  then show ?case by simp
next
  case (Cons c cs)
  obtain q rc where s: "s = (q, rc, True)"
    using Cons.prems(2) by (cases s) auto
  show ?case
  proof (cases c)
    case (Put d)
    have "Fifo_inv (Fifo_write s d)" "snd (snd (Fifo_write s d))"
      using Cons.prems Fifo_inv_write [of s d] by (simp_all add: s)
    from Cons.IH [OF this] Fifo_unread_write [OF Cons.prems(1), of d] Put show ?thesis
      by simp
  next
    case (Take n)
    let ?s2 = "snd (Fifo_read s (int n))"
    from Fifo_take_auto [of q rc n] Cons.prems(1)
    have t: "fst (Fifo_read s (int n)) = take n (Fifo_unread s)"
        "Fifo_inv ?s2" "snd (snd ?s2)" "Fifo_unread ?s2 = drop n (Fifo_unread s)"
      unfolding s by blast+
    from Cons.IH [OF t(2,3)] t(1,4) Take show ?thesis
      by simp
  qed
qed

lemma Buffer_inv_autoack_update: "Buffer_inv (b\<lparr>autoack := aa\<rparr>) = Buffer_inv b"
  by (simp add: Buffer_inv_def Buffer_wf_def)

lemma abstraction_autoack_update:
  "abstraction (b\<lparr>autoack := aa\<rparr>) = (queued_bytes b, readCount b, aa)"
  by (simp add: abstraction_def queued_bytes_def)

text \<open>
  Claim C7, as amended. In every state that satisfies the invariant
  \<open>0 \<le> readCursor \<le> len(queued) \<le> capacity\<close>, \<^verbatim>\<open>read(n)\<close> returns the first \<open>n\<close>
  unread bytes, all of them when fewer than \<open>n\<close> are unread and none when none is (\<^verbatim>\<open>read\<close>
  has no statement that throws). A consumer whose every \<^verbatim>\<open>read(n)\<close> is followed at once by
  \<^verbatim>\<open>ack(n)\<close> observes, over any sequence of writes and such reads, the bytes a plain queue
  gives, and so does a consumer of the same buffer in auto-ack mode.
\<close>

theorem C7_read_then_ack:
  assumes "Buffer_inv b"
  shows "fst (Buffer_read b (int n)) = take n (unread b) \<and>
         length (fst (Buffer_read b (int n))) = min n (nat (Buffer_getQueuedBytes b)) \<and>
         outputs (run (b\<lparr>autoack := False\<rparr>) (manual_ops cs)) = Some (queue_run (unread b) cs) \<and>
         outputs (run (b\<lparr>autoack := True\<rparr>) (auto_ops cs)) = Some (queue_run (unread b) cs)"
proof -
  from assms have wf: "Buffer_wf b" and fi: "Fifo_inv (abstraction b)"
    by (simp_all add: Buffer_inv_iff)
  have qlen: "length (queued_bytes b) = view_length (queued b)"
    using wf by (rule length_queued_bytes)
  from fi obtain a where a: "readCount b = int a" "a \<le> length (queued_bytes b)"
    by (auto simp: Fifo_inv_def abstraction_def dest: zero_le_imp_eq_int)
  have un: "unread b = drop a (queued_bytes b)"
    by (simp add: unread_def a(1))
  have "fst (Fifo_read (abstraction b) (int n)) = take n (drop a (queued_bytes b))"
    unfolding abstraction_def a(1) using Fifo_read_nat [OF a(2) refl, of "autoack b" n] by simp
  with Buffer_read_ok [OF wf, of "int n"] un
  have rd: "fst (Buffer_read b (int n)) = take n (unread b)" by simp
  have "nat (Buffer_getQueuedBytes b) = length (unread b)"
    using a qlen by (simp add: Buffer_getQueuedBytes_def un)
  then have ln: "length (fst (Buffer_read b (int n))) = min n (nat (Buffer_getQueuedBytes b))"
    unfolding rd by (simp add: min.commute)
  have invm: "Buffer_wf (b\<lparr>autoack := False\<rparr>)" "Fifo_inv (abstraction (b\<lparr>autoack := False\<rparr>))"
    and inva: "Buffer_wf (b\<lparr>autoack := True\<rparr>)" "Fifo_inv (abstraction (b\<lparr>autoack := True\<rparr>))"
  proof -
    have "Buffer_inv (b\<lparr>autoack := False\<rparr>)" "Buffer_inv (b\<lparr>autoack := True\<rparr>)"
      using assms by (simp_all add: Buffer_inv_autoack_update)
    then show "Buffer_wf (b\<lparr>autoack := False\<rparr>)"
      "Fifo_inv (abstraction (b\<lparr>autoack := False\<rparr>))"
      "Buffer_wf (b\<lparr>autoack := True\<rparr>)" "Fifo_inv (abstraction (b\<lparr>autoack := True\<rparr>))"
      unfolding Buffer_inv_iff by blast+
  qed
  have um: "Fifo_unread (abstraction (b\<lparr>autoack := False\<rparr>)) = unread b"
    and ua: "Fifo_unread (abstraction (b\<lparr>autoack := True\<rparr>)) = unread b"
    by (simp_all add: abstraction_autoack_update Fifo_unread_def unread_def)
  have m: "outputs (run (b\<lparr>autoack := False\<rparr>) (manual_ops cs)) = Some (queue_run (unread b) cs)"
    using run_outputs [OF invm(1), of "manual_ops cs"]
      Fifo_manual_run [OF invm(2), of cs] um
    by (simp add: abstraction_autoack_update)
  have au: "outputs (run (b\<lparr>autoack := True\<rparr>) (auto_ops cs)) = Some (queue_run (unread b) cs)"
    using run_outputs [OF inva(1), of "auto_ops cs"]
      Fifo_auto_run [OF inva(2), of cs] ua
    by (simp add: abstraction_autoack_update)
  from rd ln m au show ?thesis by simp
qed

theorem C7_read_then_ack_witness:
  "Buffer_inv B0 \<and>
   fst (Buffer_read B0 (int 1)) = [4] \<and>
   fst (Buffer_read B0 (int 7)) = [4, 5] \<and>
   outputs (run (B0\<lparr>autoack := False\<rparr>) (manual_ops [Take 1, Put [6], Take 5, Take 1]))
     = Some [[4], [5, 6], []] \<and>
   outputs (run (B0\<lparr>autoack := True\<rparr>) (auto_ops [Take 1, Put [6], Take 5, Take 1]))
     = Some [[4], [5, 6], []]"
proof -
  have inv: "Buffer_inv B0"
    by (simp add: Buffer_inv_def Buffer_wf_def B0_def)
  have u: "unread B0 = [4, 5]"
    by (simp add: unread_def queued_bytes_def view_bytes_def B0_def)
  from C7_read_then_ack [OF inv, of 1 "[Take 1, Put [6], Take 5, Take 1]"]
       C7_read_then_ack [OF inv, of 7 "[]"] inv
  show ?thesis
    unfolding u by simp
qed

text \<open>
  Claim C7 as stated fails outside the invariant. After \<^verbatim>\<open>write\<close> of five bytes and \<^verbatim>\<open>ack(3)\<close>
  with nothing read, the read count is \<open>-3\<close> and two bytes are queued and unread:
  \<^verbatim>\<open>read(1)\<close> returns nothing, and a consumer taking 1, 1 and 5 bytes gets nothing at all with
  read-then-ack, the two bytes only on the third take in auto-ack mode, and one byte on
  each of the first two takes from a plain queue.
\<close>

theorem C7_outside_invariant_counterexample:
  "run (new_Buffer False) [Write [1, 2, 3, 4, 5], Ack 3] = Inr ([], Bneg) \<and>
   unread Bneg = [4, 5] \<and>
   fst (Buffer_read Bneg 1) = [] \<and>
   outputs (run (Bneg\<lparr>autoack := False\<rparr>) (manual_ops [Take 1, Take 1, Take 5]))
     = Some [[], [], []] \<and>
   outputs (run (Bneg\<lparr>autoack := True\<rparr>) (auto_ops [Take 1, Take 1, Take 5]))
     = Some [[], [], [4, 5]] \<and>
   queue_run (unread Bneg) [Take 1, Take 1, Take 5] = [[4], [5], []]"
proof -
  have 1: "run (new_Buffer False) [Write [1, 2, 3, 4, 5], Ack 3] = Inr ([], Bneg)"
    by (simp add: Bneg_def eval_defs)
  have 2: "unread Bneg = [4, 5]"
    by (simp add: Bneg_def unread_def queued_bytes_def view_bytes_def)
  have 3: "fst (Buffer_read Bneg 1) = []"
    by (simp add: Bneg_def eval_defs)
  have 4: "outputs (run (Bneg\<lparr>autoack := False\<rparr>) (manual_ops [Take 1, Take 1, Take 5]))
     = Some [[], [], []]"
    by (simp add: Bneg_def outputs_def eval_defs)
  have 5: "outputs (run (Bneg\<lparr>autoack := True\<rparr>) (auto_ops [Take 1, Take 1, Take 5]))
     = Some [[], [], [4, 5]]"
    by (simp add: Bneg_def outputs_def eval_defs)
  have 6: "queue_run (unread Bneg) [Take 1, Take 1, Take 5] = [[4], [5], []]"
    unfolding 2 by simp
  show ?thesis by (intro conjI) (rule 1 2 3 4 5 6)+
qed

section \<open>Properties of the relay streams\<close>

lemma js_and_ffffff: "js_and a 0xffffff = a mod 2 ^ 24"
proof -
  have m: "(0xffffff :: 32 word) = mask 24" by (simp add: mask_eq_exp_minus_1)
  have "(word_of_int a :: 32 word) AND word_of_int 0xffffff = take_bit 24 (word_of_int a)"
    by (simp add: m take_bit_eq_mask)
  then have "js_and a 0xffffff = sint (take_bit 24 (word_of_int a :: 32 word))"
    by (simp add: js_and_def)
  also have "\<dots> = signed_take_bit 31 (take_bit 24 (uint (word_of_int a :: 32 word)))"
    by (simp add: sint_uint unsigned_take_bit_eq)
  also have "take_bit 24 (uint (word_of_int a :: 32 word)) = take_bit 24 a"
    by (simp add: uint_word_of_int take_bit_eq_mod mod_mod_cancel)
  also have "signed_take_bit 31 (take_bit 24 a) = take_bit 24 a"
  proof (rule signed_take_bit_int_eq_self)
    have "- (2 ^ 31) \<le> (0::int)" by simp
    also have "0 \<le> take_bit 24 a" by simp
    finally show "- (2 ^ 31) \<le> take_bit 24 a" .
    have "take_bit 24 a < 2 ^ 24" by (rule take_bit_int_less_exp)
    also have "(2 ^ 24 :: int) < 2 ^ 31" by simp
    finally show "take_bit 24 a < 2 ^ 31" .
  qed
  finally show ?thesis by (simp add: take_bit_eq_mod)
qed

lemma ack_delta_mod: "ack_delta ack wc = (ack - wc) mod 2 ^ 24"
  by (simp add: ack_delta_def js_and_ffffff mod_diff_eq)



lemma resumeRead_XHR_backoff:
  "backoffMS (resumeRead_XHR s) = backoffMS s \<and> backoffTimeout (resumeRead_XHR s) = backoffTimeout s"
  by (simp add: resumeRead_XHR_def perform_def)

lemma sendWrite_XHR_backoff:
  "backoffMS (sendWrite_XHR enc s) = backoffMS s \<and>
   backoffTimeout (sendWrite_XHR enc s) = backoffTimeout s"
  by (simp add: sendWrite_XHR_def perform_def Let_def)

lemma resumeRead_WS_backoff:
  "backoffMS (resumeRead_WS fresh s) = backoffMS s \<and>
   backoffTimeout (resumeRead_WS fresh s) = backoffTimeout s"
  by (simp add: resumeRead_WS_def perform_def Let_def)

lemma sendWrite_WS_backoff:
  "backoffMS (sendWrite_WS now s) = backoffMS s \<and>
   backoffTimeout (sendWrite_WS now s) = backoffTimeout s"
  by (simp add: sendWrite_WS_def perform_def Let_def)

lemma requestSuccess_backoff:
  assumes "\<And>t. backoffMS (rr t) = backoffMS t \<and> backoffTimeout (rr t) = backoffTimeout t"
    and "\<And>t. backoffMS (sw t) = backoffMS t \<and> backoffTimeout (sw t) = backoffTimeout t"
  shows "backoffMS (requestSuccess rr sw isRead s) = 0 \<and>
         backoffTimeout (requestSuccess rr sw isRead s) = None"
  by (simp add: requestSuccess_def onBackoffExpired_def perform_def Let_def assms)

lemma requestSuccess_pending:
  "backoffTimeout s \<noteq> None \<Longrightarrow>
     requestSuccess rr sw isRead s =
       onBackoffExpired rr sw (s\<lparr>backoffMS := 0, effects := effects s @ [ClearTimeout]\<rparr>)"
  by (simp add: requestSuccess_def perform_def Let_def)

lemma requestError_step:
  assumes "has_session s" "backoffTimeout s = None" "0 \<le> backoffMS s"
  shows "backoffMS (requestError isRead s) =
           (if backoffMS s = 0 then 1
            else if 10000 < backoffMS s * 2 + 13
                 then 10000 - (backoffMS s * 2 + 13) mod 9000
                 else backoffMS s * 2 + 13)"
    and "backoffTimeout (requestError isRead s) = Some (backoffMS (requestError isRead s))"
    and "effects (requestError isRead s) =
           effects s @
           (if 1000 \<le> backoffMS (requestError isRead s)
            then [ShowOverlay (backoffMS (requestError isRead s) + 500)] else []) @
           [SetBackoffTimeout (backoffMS (requestError isRead s))]"
    and "0 < backoffMS (requestError isRead s)"
proof -
  have r: "0 < m \<Longrightarrow> js_rem m 9000 = m mod 9000" for m
    by (simp add: js_rem_def)
  have m: "0 < backoffMS s * 2 + 13" using assms(3) by simp
  show "backoffMS (requestError isRead s) =
           (if backoffMS s = 0 then 1
            else if 10000 < backoffMS s * 2 + 13
                 then 10000 - (backoffMS s * 2 + 13) mod 9000
                 else backoffMS s * 2 + 13)"
    using assms(1,2) r [OF m] by (simp add: requestError_def perform_def Let_def)
  show "backoffTimeout (requestError isRead s) = Some (backoffMS (requestError isRead s))"
    using assms(1,2) by (simp add: requestError_def perform_def Let_def)
  show "effects (requestError isRead s) =
           effects s @
           (if 1000 \<le> backoffMS (requestError isRead s)
            then [ShowOverlay (backoffMS (requestError isRead s) + 500)] else []) @
           [SetBackoffTimeout (backoffMS (requestError isRead s))]"
    using assms(1,2) by (simp add: requestError_def perform_def Let_def)
  have "(backoffMS s * 2 + 13) mod 9000 < 9000" by simp
  then show "0 < backoffMS (requestError isRead s)"
    using assms r [OF m] by (simp add: requestError_def perform_def Let_def)
qed

lemma requestError_ignored:
  "\<not> has_session s \<or> backoffTimeout s \<noteq> None \<Longrightarrow> requestError isRead s = s"
  by (auto simp: requestError_def)

text \<open>
  Claim C3, as amended. On a stream with an established session, a request error that
  arrives while no backoff timer is pending sets the backoff duration to 1 ms when it was
  0 and to \<open>previous * 2 + 13\<close> otherwise, a value over 10000 being replaced by
  \<open>10000 - (value mod 9000)\<close>, and schedules the backoff timer for that duration (with the
  retry overlay first when the duration is at least 1000 ms); a request error that arrives
  while a backoff timer is pending changes nothing. On both transports a request success
  leaves the backoff duration 0 and no timer pending and, when a timer was pending, cancels
  it and runs the backoff-expiry action at once.
\<close>

theorem C3_backoff:
  fixes s :: "'a GoogleRelay_scheme" and x :: GoogleRelayXHR and w :: GoogleRelayWS
  shows
  "(has_session s \<and> backoffTimeout s = None \<and> 0 \<le> backoffMS s \<longrightarrow>
      backoffMS (requestError isRead s) =
        (if backoffMS s = 0 then 1
         else if 10000 < backoffMS s * 2 + 13
              then 10000 - (backoffMS s * 2 + 13) mod 9000
              else backoffMS s * 2 + 13) \<and>
      0 < backoffMS (requestError isRead s) \<and>
      backoffTimeout (requestError isRead s) = Some (backoffMS (requestError isRead s)) \<and>
      effects (requestError isRead s) =
        effects s @
        (if 1000 \<le> backoffMS (requestError isRead s)
         then [ShowOverlay (backoffMS (requestError isRead s) + 500)] else []) @
        [SetBackoffTimeout (backoffMS (requestError isRead s))]) \<and>
   (backoffTimeout s \<noteq> None \<longrightarrow> requestError isRead s = s) \<and>
   backoffMS (requestSuccess resumeRead_XHR (sendWrite_XHR enc) isRead x) = 0 \<and>
   backoffTimeout (requestSuccess resumeRead_XHR (sendWrite_XHR enc) isRead x) = None \<and>
   (backoffTimeout x \<noteq> None \<longrightarrow>
      requestSuccess resumeRead_XHR (sendWrite_XHR enc) isRead x =
        onBackoffExpired resumeRead_XHR (sendWrite_XHR enc)
          (x\<lparr>backoffMS := 0, effects := effects x @ [ClearTimeout]\<rparr>)) \<and>
   backoffMS (requestSuccess (resumeRead_WS fresh) (sendWrite_WS now) isRead w) = 0 \<and>
   backoffTimeout (requestSuccess (resumeRead_WS fresh) (sendWrite_WS now) isRead w) = None \<and>
   (backoffTimeout w \<noteq> None \<longrightarrow>
      requestSuccess (resumeRead_WS fresh) (sendWrite_WS now) isRead w =
        onBackoffExpired (resumeRead_WS fresh) (sendWrite_WS now)
          (w\<lparr>backoffMS := 0, effects := effects w @ [ClearTimeout]\<rparr>))"
proof (intro conjI impI)
  assume h: "has_session s \<and> backoffTimeout s = None \<and> 0 \<le> backoffMS s"
  then have h': "has_session s" "backoffTimeout s = None" "0 \<le> backoffMS s" by simp_all
  show "backoffMS (requestError isRead s) =
        (if backoffMS s = 0 then 1
         else if 10000 < backoffMS s * 2 + 13
              then 10000 - (backoffMS s * 2 + 13) mod 9000
              else backoffMS s * 2 + 13)"
    by (rule requestError_step(1) [OF h'])
  show "0 < backoffMS (requestError isRead s)"
    by (rule requestError_step(4) [OF h'])
  show "backoffTimeout (requestError isRead s) = Some (backoffMS (requestError isRead s))"
    by (rule requestError_step(2) [OF h'])
  show "effects (requestError isRead s) =
        effects s @
        (if 1000 \<le> backoffMS (requestError isRead s)
         then [ShowOverlay (backoffMS (requestError isRead s) + 500)] else []) @
        [SetBackoffTimeout (backoffMS (requestError isRead s))]"
    by (rule requestError_step(3) [OF h'])
next
  assume "backoffTimeout s \<noteq> None"
  then show "requestError isRead s = s" by (simp add: requestError_ignored)
next
  show "backoffMS (requestSuccess resumeRead_XHR (sendWrite_XHR enc) isRead x) = 0"
    using requestSuccess_backoff [of resumeRead_XHR "sendWrite_XHR enc" isRead x]
      resumeRead_XHR_backoff sendWrite_XHR_backoff by simp
  show "backoffTimeout (requestSuccess resumeRead_XHR (sendWrite_XHR enc) isRead x) = None"
    using requestSuccess_backoff [of resumeRead_XHR "sendWrite_XHR enc" isRead x]
      resumeRead_XHR_backoff sendWrite_XHR_backoff by simp
  show "backoffMS (requestSuccess (resumeRead_WS fresh) (sendWrite_WS now) isRead w) = 0"
    using requestSuccess_backoff [of "resumeRead_WS fresh" "sendWrite_WS now" isRead w]
      resumeRead_WS_backoff sendWrite_WS_backoff by simp
  show "backoffTimeout (requestSuccess (resumeRead_WS fresh) (sendWrite_WS now) isRead w) = None"
    using requestSuccess_backoff [of "resumeRead_WS fresh" "sendWrite_WS now" isRead w]
      resumeRead_WS_backoff sendWrite_WS_backoff by simp
next
  assume "backoffTimeout x \<noteq> None"
  then show "requestSuccess resumeRead_XHR (sendWrite_XHR enc) isRead x =
        onBackoffExpired resumeRead_XHR (sendWrite_XHR enc)
          (x\<lparr>backoffMS := 0, effects := effects x @ [ClearTimeout]\<rparr>)"
    by (rule requestSuccess_pending)
next
  assume "backoffTimeout w \<noteq> None"
  then show "requestSuccess (resumeRead_WS fresh) (sendWrite_WS now) isRead w =
        onBackoffExpired (resumeRead_WS fresh) (sendWrite_WS now)
          (w\<lparr>backoffMS := 0, effects := effects w @ [ClearTimeout]\<rparr>)"
    by (rule requestSuccess_pending)
qed

lemmas stream_defs = opened_XHR_def new_GoogleRelayXHR_def asyncOpen_onReady_def
  resumeRead_XHR_def sendWrite_XHR_def isRequestBusy_def xhr_open_send_def perform_def
  has_session_def requestError_def requestSuccess_def onBackoffExpired_def
  Buffer_getQueuedBytes_def js_rem_def

lemma opened_XHR_eq:
  "opened_XHR = new_GoogleRelayXHR\<lparr>sessionID := Some ''sid'',
      effects := [ReadRequest (Some ''sid'') 0, OpenComplete True],
      readRequest := \<lparr>readyState = 1, status = 0\<rparr>\<rparr>"
  by (simp add: stream_defs)

theorem C3_backoff_witness:
  "(has_session opened_XHR \<and> backoffTimeout opened_XHR = None \<and> 0 \<le> backoffMS opened_XHR) \<and>
   backoffMS (requestError True opened_XHR) = 1 \<and>
   backoffTimeout (requestError True opened_XHR) = Some 1 \<and>
   backoffMS (requestError False
     (onBackoffExpired resumeRead_XHR (sendWrite_XHR encode_hex)
        (requestError True opened_XHR))) = 15 \<and>
   backoffMS (requestError True (opened_XHR\<lparr>backoffMS := 5000\<rparr>)) = 8987 \<and>
   requestError False (requestError True opened_XHR) = requestError True opened_XHR \<and>
   backoffMS (requestSuccess resumeRead_XHR (sendWrite_XHR encode_hex) False
     (requestError True opened_XHR)) = 0 \<and>
   requestSuccess resumeRead_XHR (sendWrite_XHR encode_hex) False (requestError True opened_XHR)
     = onBackoffExpired resumeRead_XHR (sendWrite_XHR encode_hex)
         ((requestError True opened_XHR)
            \<lparr>backoffMS := 0,
             effects := effects (requestError True opened_XHR) @ [ClearTimeout]\<rparr>)"
proof -
  let ?e1 = "requestError True opened_XHR"
  let ?e2 = "onBackoffExpired resumeRead_XHR (sendWrite_XHR encode_hex) ?e1"
  let ?big = "opened_XHR\<lparr>backoffMS := 5000\<rparr>"
  have h0: "has_session opened_XHR \<and> backoffTimeout opened_XHR = None \<and> 0 \<le> backoffMS opened_XHR"
    by (simp add: opened_XHR_eq has_session_def new_GoogleRelayXHR_def)
  have a1: "backoffMS ?e1 = 1" "backoffTimeout ?e1 = Some 1"
    using C3_backoff [where s = opened_XHR and isRead = True] h0
    by (simp_all add: opened_XHR_eq new_GoogleRelayXHR_def)
  have h2: "has_session ?e2 \<and> backoffTimeout ?e2 = None \<and> 0 \<le> backoffMS ?e2"
    by (simp add: stream_defs new_Buffer_def Let_def subarray_def Uint8Array_def)
  have m2: "backoffMS ?e2 = 1"
    by (simp add: stream_defs new_Buffer_def Let_def subarray_def Uint8Array_def)
  have a2: "backoffMS (requestError False ?e2) = 15"
    using C3_backoff [where s = ?e2 and isRead = False] h2 m2 by simp
  have h3: "has_session ?big \<and> backoffTimeout ?big = None \<and> 0 \<le> backoffMS ?big"
    using h0 by (simp add: has_session_def)
  have a3: "backoffMS (requestError True ?big) = 8987"
    using C3_backoff [where s = ?big and isRead = True] h3 by simp
  have p: "backoffTimeout ?e1 \<noteq> None" using a1(2) by simp
  have a4: "requestError False ?e1 = ?e1"
    using C3_backoff [where s = ?e1 and isRead = False] p by blast
  have a5: "backoffMS (requestSuccess resumeRead_XHR (sendWrite_XHR encode_hex) False ?e1) = 0"
    "requestSuccess resumeRead_XHR (sendWrite_XHR encode_hex) False ?e1
     = onBackoffExpired resumeRead_XHR (sendWrite_XHR encode_hex)
         (?e1\<lparr>backoffMS := 0, effects := effects ?e1 @ [ClearTimeout]\<rparr>)"
    using C3_backoff [where x = ?e1 and isRead = False and enc = encode_hex] p by blast+
  from h0 a1 a2 a3 a4 a5 show ?thesis by simp
qed

text \<open>
  Claim C3 as stated fails: from the healthy state of an opened stream, the second of two
  consecutive request errors arrives while the timer of the first is pending and is
  ignored; the backoff duration stays 1 ms, where the claim gives \<open>1 * 2 + 13 = 15\<close>.
\<close>

theorem C3_error_while_backing_off_counterexample:
  "backoffMS (requestError True opened_XHR) = 1 \<and>
   backoffMS (requestError True (requestError True opened_XHR)) = 1 \<and>
   backoffMS (requestError True opened_XHR) * 2 + 13 = 15"
  by (simp add: stream_defs)


lemma sendWrite_WS_fields:
  "writeCount (sendWrite_WS now s) = writeCount s"
  "sessionID (sendWrite_WS now s) = sessionID s"
  "socket (sendWrite_WS now s) = socket s"
  "readCount_relay (sendWrite_WS now s) = readCount_relay s"
  by (simp_all add: sendWrite_WS_def perform_def Let_def)


lemma resumeRead_WS_fields:
  "writeCount (resumeRead_WS fresh s) = writeCount s"
  "writeBuffer (resumeRead_WS fresh s) = writeBuffer s"
  "readCount_relay (resumeRead_WS fresh s) = readCount_relay s"
  by (simp_all add: resumeRead_WS_def perform_def Let_def)

lemma recordAckTime_fields:
  "writeCount (recordAckTime d s) = writeCount s"
  "writeBuffer (recordAckTime d s) = writeBuffer s"
  "backoffTimeout (recordAckTime d s) = backoffTimeout s"
  by (simp_all add: recordAckTime_def perform_def Let_def)

lemma requestSuccess_WS_fields:
  "writeCount (requestSuccess (resumeRead_WS fresh) (sendWrite_WS now) False s) = writeCount s"
  by (simp add: requestSuccess_def onBackoffExpired_def perform_def Let_def
      sendWrite_WS_fields resumeRead_WS_fields)



text \<open>The state of \<open>onSocketData\<close> before \<open>requestSuccess\<close>, for a frame that is accepted.\<close>

lemma onSocketData_accepted:
  assumes "socket s = Some w" "ws_id w = target" "getUint32 data = Inr ack" "ack \<le> 0xffffff"
  shows "\<exists>s4. onSocketData target data now now' fresh s
               = Inr (requestSuccess (resumeRead_WS fresh) (sendWrite_WS now') False s4) \<and>
              writeCount s4 = writeCount s + ack_delta ack (writeCount s) \<and>
              writeBuffer s4 = Buffer_ack (writeBuffer s) (ack_delta ack (writeCount s))"
proof -
  define s1 where "s1 = (if ackTime s \<noteq> 0 \<and> ack = expectedAck s
                         then (recordAckTime (now - ackTime s) s)\<lparr>ackTime := 0\<rparr> else s)"
  define s3 where "s3 = s1\<lparr>writeBuffer := Buffer_ack (writeBuffer s1) (ack_delta ack (writeCount s1)),
                          writeCount := writeCount s1 + ack_delta ack (writeCount s1)\<rparr>"
  define s4 where "s4 = (if length (drop 4 data) \<noteq> 0
                         then (perform [DataAvailable (drop 4 data)] s3)
                                \<lparr>readCount_relay := readCount_relay s3 + int (length (drop 4 data))\<rparr>
                         else s3)"
  have f1: "writeCount s1 = writeCount s" "writeBuffer s1 = writeBuffer s"
    by (simp_all add: s1_def recordAckTime_fields)
  have f4: "writeCount s4 = writeCount s + ack_delta ack (writeCount s)"
      "writeBuffer s4 = Buffer_ack (writeBuffer s) (ack_delta ack (writeCount s))"
    by (simp_all add: s4_def s3_def f1 perform_def)
  have "onSocketData target data now now' fresh s
          = Inr (requestSuccess (resumeRead_WS fresh) (sendWrite_WS now') False s4)"
    using assms by (simp add: onSocketData_def Let_def s4_def s3_def s1_def)
  with f4 show ?thesis by blast
qed

lemma onSocketData_writeCount:
  assumes "socket s = Some w" "ws_id w = target" "getUint32 data = Inr ack" "ack \<le> 0xffffff"
  shows "\<exists>s'. onSocketData target data now now' fresh s = Inr s' \<and>
              writeCount s' = writeCount s + (ack - writeCount s) mod 2 ^ 24"
  using onSocketData_accepted [OF assms, of now now' fresh]
  by (auto simp: requestSuccess_WS_fields ack_delta_mod)



text \<open>
  Claim C8. For a frame from the current socket whose header exceeds \<open>2^24 - 1\<close>, the handler
  closes the stream and clears the session identifier, and does nothing else: no timer is
  set, the backoff state is unchanged, and nothing is delivered to the consumer.
\<close>

theorem C8_socket_ack_out_of_range:
  assumes "socket s = Some w" "ws_id w = target" "getUint32 data = Inr ack" "0xffffff < ack"
  shows "onSocketData target data now now' fresh s
           = Inr (s\<lparr>effects := effects s @ [Close], sessionID := None\<rparr>) \<and>
         \<not> has_session (s\<lparr>effects := effects s @ [Close], sessionID := None\<rparr>) \<and>
         backoffTimeout (s\<lparr>effects := effects s @ [Close], sessionID := None\<rparr>)
           = backoffTimeout s"
  using assms
  by (simp add: onSocketData_def close_def perform_def has_session_def)

lemma Buffer_read_unread:
  assumes "Buffer_inv b"
  shows "fst (Buffer_read b (int n)) = take n (unread b)"
    and "int (length (unread b)) = Buffer_getQueuedBytes b"
proof -
  from assms have wf: "Buffer_wf b" and fi: "Fifo_inv (abstraction b)"
    by (simp_all add: Buffer_inv_iff)
  have qlen: "length (queued_bytes b) = view_length (queued b)"
    using wf by (rule length_queued_bytes)
  from fi obtain a where a: "readCount b = int a" "a \<le> length (queued_bytes b)"
    by (auto simp: Fifo_inv_def abstraction_def dest: zero_le_imp_eq_int)
  have un: "unread b = drop a (queued_bytes b)"
    by (simp add: unread_def a(1))
  have "fst (Fifo_read (abstraction b) (int n)) = take n (drop a (queued_bytes b))"
    unfolding abstraction_def a(1) using Fifo_read_nat [OF a(2) refl, of "autoack b" n] by simp
  with Buffer_read_ok [OF wf, of "int n"] un
  show "fst (Buffer_read b (int n)) = take n (unread b)" by simp
  show "int (length (unread b)) = Buffer_getQueuedBytes b"
    using a qlen by (simp add: Buffer_getQueuedBytes_def un)
qed

lemma sendWrite_WS_sends:
  assumes "socket s = Some w" "ws_readyState w = 1"
    "Buffer_getQueuedBytes (writeBuffer s) \<noteq> 0" "backoffTimeout s = None" "onWriteSuccess s"
  shows "effects (sendWrite_WS now s) =
           effects s @
           [SocketSend (setUint32 (js_and (readCount_relay s) 0xffffff)
                        @ fst (Buffer_read (writeBuffer s) maxMessageLength_WS)),
            WriteSuccess (writeCount s)] @
           (if Buffer_getQueuedBytes (snd (Buffer_read (writeBuffer s) maxMessageLength_WS)) \<noteq> 0
            then [SetSendWriteTimeout] else [])"
  using assms by (simp add: sendWrite_WS_def perform_def Let_def)

lemma resumeRead_XHR_fields:
  "writeCount (resumeRead_XHR x) = writeCount x"
  "onWriteSuccess (resumeRead_XHR x) = onWriteSuccess x"
  "writeBuffer (resumeRead_XHR x) = writeBuffer x"
  "writeRequest (resumeRead_XHR x) = writeRequest x"
  "lastWriteSize (resumeRead_XHR x) = lastWriteSize x"
  "sessionID (resumeRead_XHR x) = sessionID x"
  by (simp_all add: resumeRead_XHR_def perform_def)

lemma sendWrite_XHR_fields:
  "writeCount (sendWrite_XHR enc x) = writeCount x"
  "onWriteSuccess (sendWrite_XHR enc x) = onWriteSuccess x"
  "sessionID (sendWrite_XHR enc x) = sessionID x"
  by (simp_all add: sendWrite_XHR_def perform_def Let_def)

lemma requestSuccess_XHR_fields:
  "writeCount (requestSuccess resumeRead_XHR (sendWrite_XHR enc) isRead x) = writeCount x"
  "onWriteSuccess (requestSuccess resumeRead_XHR (sendWrite_XHR enc) isRead x) = onWriteSuccess x"
  by (simp_all add: requestSuccess_def onBackoffExpired_def perform_def Let_def
      sendWrite_XHR_fields resumeRead_XHR_fields)

lemma onWriteDone_success:
  assumes "readyState (writeRequest x) = 4" "status (writeRequest x) = 200"
  shows "onWriteDone enc x =
    (let s3 = requestSuccess resumeRead_XHR (sendWrite_XHR enc) False
                (x\<lparr>writeBuffer := Buffer_ack (writeBuffer x) (int (lastWriteSize x)),
                   writeCount := writeCount x + int (lastWriteSize x)\<rparr>)
     in if onWriteSuccess x
        then s3\<lparr>effects := effects s3 @ [WriteSuccess (writeCount x + int (lastWriteSize x))]\<rparr>
        else s3)"
  using assms
  by (simp add: onWriteDone_def Let_def perform_def requestSuccess_XHR_fields)

text \<open>
  Claim C10. When the socket transport sends a frame, it calls the registered write-success
  callback right after the send, with \<open>writeCount\<close> as it was before the send although the
  payload sent is not empty, and \<^verbatim>\<open>sendWrite_\<close> never changes \<open>writeCount\<close>; \<open>writeCount\<close> advances
  when a frame with an acknowledgement arrives. The polling transport adds the bytes of the
  completed request to \<open>writeCount\<close> first and calls the callback with the new value last.
\<close>

theorem C10_write_success_at_send:
  fixes s :: GoogleRelayWS and x :: GoogleRelayXHR
  shows
  "(socket s = Some w \<and> ws_readyState w = 1 \<and> Buffer_getQueuedBytes (writeBuffer s) \<noteq> 0 \<and>
    backoffTimeout s = None \<and> onWriteSuccess s \<and> Buffer_inv (writeBuffer s) \<longrightarrow>
      fst (Buffer_read (writeBuffer s) maxMessageLength_WS) \<noteq> [] \<and>
      effects (sendWrite_WS now s) =
        effects s @
        [SocketSend (setUint32 (js_and (readCount_relay s) 0xffffff)
                     @ fst (Buffer_read (writeBuffer s) maxMessageLength_WS)),
         WriteSuccess (writeCount s)] @
        (if Buffer_getQueuedBytes (snd (Buffer_read (writeBuffer s) maxMessageLength_WS)) \<noteq> 0
         then [SetSendWriteTimeout] else [])) \<and>
   writeCount (sendWrite_WS now s) = writeCount s \<and>
   (socket s = Some w \<and> ws_id w = target \<and> getUint32 data = Inr ack \<and> ack \<le> 0xffffff \<longrightarrow>
      (\<exists>s'. onSocketData target data now now' fresh s = Inr s' \<and>
            writeCount s' = writeCount s + (ack - writeCount s) mod 2 ^ 24)) \<and>
   (readyState (writeRequest x) = 4 \<and> status (writeRequest x) = 200 \<and> onWriteSuccess x \<longrightarrow>
      writeCount (onWriteDone enc x) = writeCount x + int (lastWriteSize x) \<and>
      last (effects (onWriteDone enc x)) = WriteSuccess (writeCount x + int (lastWriteSize x)))"
proof (intro conjI impI)
  assume h: "socket s = Some w \<and> ws_readyState w = 1 \<and>
    Buffer_getQueuedBytes (writeBuffer s) \<noteq> 0 \<and>
    backoffTimeout s = None \<and> onWriteSuccess s \<and> Buffer_inv (writeBuffer s)"
  then have inv: "Buffer_inv (writeBuffer s)" and q: "Buffer_getQueuedBytes (writeBuffer s) \<noteq> 0"
    and so: "socket s = Some w" "ws_readyState w = 1"
    and more: "backoffTimeout s = None" "onWriteSuccess s"
    by blast+
  have "unread (writeBuffer s) \<noteq> []"
    using Buffer_read_unread(2) [OF inv] q by auto
  moreover have "fst (Buffer_read (writeBuffer s) maxMessageLength_WS)
                 = take 32764 (unread (writeBuffer s))"
    using Buffer_read_unread(1) [OF inv, of 32764] by (simp add: maxMessageLength_WS_def)
  ultimately show "fst (Buffer_read (writeBuffer s) maxMessageLength_WS) \<noteq> []"
    by simp
  show "effects (sendWrite_WS now s) =
        effects s @
        [SocketSend (setUint32 (js_and (readCount_relay s) 0xffffff)
                     @ fst (Buffer_read (writeBuffer s) maxMessageLength_WS)),
         WriteSuccess (writeCount s)] @
        (if Buffer_getQueuedBytes (snd (Buffer_read (writeBuffer s) maxMessageLength_WS)) \<noteq> 0
         then [SetSendWriteTimeout] else [])"
    by (rule sendWrite_WS_sends [OF so q more])
next
  show "writeCount (sendWrite_WS now s) = writeCount s"
    by (rule sendWrite_WS_fields)
next
  assume "socket s = Some w \<and> ws_id w = target \<and> getUint32 data = Inr ack \<and> ack \<le> 0xffffff"
  then have a: "socket s = Some w" "ws_id w = target" "getUint32 data = Inr ack" "ack \<le> 0xffffff"
    by blast+
  show "\<exists>s'. onSocketData target data now now' fresh s = Inr s' \<and>
            writeCount s' = writeCount s + (ack - writeCount s) mod 2 ^ 24"
    by (rule onSocketData_writeCount [OF a])
next
  assume h: "readyState (writeRequest x) = 4 \<and> status (writeRequest x) = 200 \<and> onWriteSuccess x"
  then have d: "readyState (writeRequest x) = 4" "status (writeRequest x) = 200" by simp_all
  show "writeCount (onWriteDone enc x) = writeCount x + int (lastWriteSize x)"
    using h by (simp add: onWriteDone_success [OF d] Let_def requestSuccess_XHR_fields)
  show "last (effects (onWriteDone enc x)) = WriteSuccess (writeCount x + int (lastWriteSize x))"
    using h by (simp add: onWriteDone_success [OF d] Let_def)
qed

lemma getQueuedBytes_abstraction:
  assumes "Buffer_wf b" "abstraction b = (q, rc, aa)"
  shows "Buffer_getQueuedBytes b = int (length q) - rc"
    and "view_length (queued b) = length q" and "queued_bytes b = q"
  using assms length_queued_bytes [OF assms(1)]
  by (auto simp: abstraction_def Buffer_getQueuedBytes_def)

lemma Buffer_read_abstraction:
  assumes "Buffer_wf b" "abstraction b = (q, int a, False)" "a \<le> length q"
  shows "fst (Buffer_read b (int n)) = take n (drop a q)"
    and "Buffer_wf (snd (Buffer_read b (int n)))"
    and "abstraction (snd (Buffer_read b (int n))) = (q, int a + int (min n (length q - a)), False)"
proof -
  have k: "min n (length q - a) = length (take n (drop a q))" by simp
  have "Fifo_read (q, int a, False) (int n)
        = (take n (drop a q), q, int a + int (min n (length q - a)), False)"
    using Fifo_read_nat [OF assms(3) k, of False] by simp
  with Buffer_read_ok [OF assms(1), of "int n"] assms(2)
  show "fst (Buffer_read b (int n)) = take n (drop a q)"
    and "Buffer_wf (snd (Buffer_read b (int n)))"
    and "abstraction (snd (Buffer_read b (int n))) = (q, int a + int (min n (length q - a)), False)"
    by simp_all
qed

lemma Buffer_ack_abstraction:
  assumes "Buffer_wf b" "abstraction b = (q, rc, aa)" "n < length q"
  shows "Buffer_wf (Buffer_ack b (int n))"
    and "abstraction (Buffer_ack b (int n)) = (drop n q, rc - int n, aa)"
  using Buffer_ack_ok [OF assms(1), of "int n"] assms(2,3)
  by (simp_all add: list_subarray_to_end)

text \<open>
  Claim C9. On a polling stream that is not backing off, has no write request in flight and
  has an empty outbound buffer, \<^verbatim>\<open>asyncWrite\<close> of 2000 bytes issues one write request with the
  first 1024 bytes. When that request completes with status 200, the buffer is acknowledged
  by 1024 bytes and has 976 bytes queued, \<open>writeCount\<close> has advanced by 1024, and a second
  write request carries the remaining 976 bytes.
\<close>

theorem C9_polling_two_sends:
  fixes x :: GoogleRelayXHR
  assumes len: "length data = 2000"
    and idle: "backoffTimeout x = None" "\<not> isRequestBusy (writeRequest x)"
    and wf: "Buffer_wf (writeBuffer x)"
    and empty: "abstraction (writeBuffer x) = ([], 0, False)"
  shows "\<exists>x1. asyncWrite (sendWrite_XHR enc) data cb x = Inr x1 \<and>
           effects x1 = effects x @
             [WriteRequest (sessionID x) (writeCount x) (enc (take 1024 data))] \<and>
           length (take 1024 data) = 1024 \<and> lastWriteSize x1 = 1024 \<and>
           isRequestBusy (writeRequest x1) \<and> writeCount x1 = writeCount x \<and>
           Buffer_getQueuedBytes (Buffer_ack (writeBuffer x1) (int (lastWriteSize x1))) = 976 \<and>
           view_length (queued (writeBuffer (onWriteDone enc (write_request_done 200 x1)))) = 976 \<and>
           queued_bytes (writeBuffer (onWriteDone enc (write_request_done 200 x1)))
             = drop 1024 data \<and>
           writeCount (onWriteDone enc (write_request_done 200 x1)) = writeCount x + 1024 \<and>
           effects (onWriteDone enc (write_request_done 200 x1)) =
             effects x1 @
             [WriteRequest (sessionID x) (writeCount x + 1024) (enc (drop 1024 data))] @
             (if cb then [WriteSuccess (writeCount x + 1024)] else []) \<and>
           length (drop 1024 data) = 976 \<and>
           lastWriteSize (onWriteDone enc (write_request_done 200 x1)) = 976"
proof -
  let ?wb = "writeBuffer x"
  obtain wb1 where wb1: "Buffer_write ?wb data = Inr wb1" "Buffer_wf wb1"
      "abstraction wb1 = (data, 0, False)"
    using Buffer_write_abs [OF wf, of data] empty by auto
  have q1: "Buffer_getQueuedBytes wb1 = 2000"
    using getQueuedBytes_abstraction(1) [OF wb1(2,3)] len by simp
  have a1: "abstraction wb1 = (data, int 0, False)" using wb1(3) by simp
  let ?wb2 = "snd (Buffer_read wb1 1024)"
  have r1: "fst (Buffer_read wb1 1024) = take 1024 data" "Buffer_wf ?wb2"
      "abstraction ?wb2 = (data, 1024, False)"
    using Buffer_read_abstraction [OF wb1(2) a1, of 1024] len by simp_all
  let ?wb3 = "Buffer_ack ?wb2 1024"
  have a3: "Buffer_wf ?wb3" "abstraction ?wb3 = (drop 1024 data, int 0, False)"
    using Buffer_ack_abstraction [OF r1(2,3), of 1024] len by simp_all
  have q3: "Buffer_getQueuedBytes ?wb3 = 976" "view_length (queued ?wb3) = 976"
    using getQueuedBytes_abstraction(1,2) [OF a3] len by simp_all
  let ?wb4 = "snd (Buffer_read ?wb3 1024)"
  have r3: "fst (Buffer_read ?wb3 1024) = drop 1024 data" "Buffer_wf ?wb4"
      "abstraction ?wb4 = (drop 1024 data, 976, False)"
    using Buffer_read_abstraction [OF a3, of 1024] len by simp_all
  have q4: "view_length (queued ?wb4) = 976" "queued_bytes ?wb4 = drop 1024 data"
    using getQueuedBytes_abstraction(2,3) [OF r3(2,3)] len by simp_all
  define x1 where "x1 = x\<lparr>writeBuffer := ?wb2, onWriteSuccess := cb,
      effects := effects x @ [WriteRequest (sessionID x) (writeCount x) (enc (take 1024 data))],
      writeRequest := xhr_open_send (writeRequest x), lastWriteSize := 1024\<rparr>"
  have s1: "sendWrite_XHR enc (x\<lparr>writeBuffer := wb1, onWriteSuccess := cb\<rparr>) = x1"
    using idle q1 r1(1) len
    by (simp add: sendWrite_XHR_def Let_def perform_def maxMessageLength_XHR_def x1_def)
  have w1: "asyncWrite (sendWrite_XHR enc) data cb x = Inr x1"
    using len idle(1) wb1(1) s1 by (simp add: asyncWrite_def Let_def)
  define z where "z = write_request_done 200 x1"
  have zf: "writeBuffer z = ?wb2" "lastWriteSize z = 1024" "writeCount z = writeCount x"
      "onWriteSuccess z = cb" "backoffTimeout z = None"
    using idle(1) by (simp_all add: z_def write_request_done_def x1_def)
  have d: "readyState (writeRequest z) = 4" "status (writeRequest z) = 200"
    by (simp_all add: z_def write_request_done_def)
  define y where "y = z\<lparr>writeBuffer := ?wb3, writeCount := writeCount x + 1024, backoffMS := 0\<rparr>"
  have arg: "z\<lparr>writeBuffer := Buffer_ack (writeBuffer z) (int (lastWriteSize z)),
               writeCount := writeCount z + int (lastWriteSize z)\<rparr>
             = z\<lparr>writeBuffer := ?wb3, writeCount := writeCount x + 1024\<rparr>"
    by (simp add: zf)
  have rs: "requestSuccess resumeRead_XHR (sendWrite_XHR enc) False
              (z\<lparr>writeBuffer := ?wb3, writeCount := writeCount x + 1024\<rparr>) = sendWrite_XHR enc y"
    using zf(5) by (simp add: requestSuccess_def Let_def y_def)
  define x2 where "x2 = y\<lparr>writeBuffer := ?wb4,
      effects := effects x1 @
        [WriteRequest (sessionID x) (writeCount x + 1024) (enc (drop 1024 data))],
      writeRequest := xhr_open_send (writeRequest y), lastWriteSize := 976\<rparr>"
  have yf: "Buffer_getQueuedBytes (writeBuffer y) = 976" "\<not> isRequestBusy (writeRequest y)"
      "backoffTimeout y = None" "writeBuffer y = ?wb3" "sessionID y = sessionID x"
      "writeCount y = writeCount x + 1024" "effects y = effects x1"
    using q3(1) zf(5) d
    by (simp_all add: y_def isRequestBusy_def z_def write_request_done_def x1_def)
  have s2: "sendWrite_XHR enc y = x2"
    using yf r3(1) len
    by (simp add: sendWrite_XHR_def Let_def perform_def maxMessageLength_XHR_def x2_def)
  have wd: "onWriteDone enc z =
      (if cb then x2\<lparr>effects := effects x2 @ [WriteSuccess (writeCount x + 1024)]\<rparr> else x2)"
    by (subst onWriteDone_success [OF d], subst arg) (simp add: rs s2 zf Let_def)
  have busy: "isRequestBusy (writeRequest x1)"
    by (simp add: x1_def isRequestBusy_def xhr_open_send_def)
  have f1: "effects x1 = effects x @
             [WriteRequest (sessionID x) (writeCount x) (enc (take 1024 data))]"
      "lastWriteSize x1 = 1024" "writeCount x1 = writeCount x" "writeBuffer x1 = ?wb2"
    by (simp_all add: x1_def)
  have f2: "writeBuffer x2 = ?wb4" "writeCount x2 = writeCount x + 1024"
      "effects x2 = effects x1 @
        [WriteRequest (sessionID x) (writeCount x + 1024) (enc (drop 1024 data))]"
      "lastWriteSize x2 = 976"
    by (simp_all add: x2_def y_def)
  have g: "Buffer_getQueuedBytes (Buffer_ack (writeBuffer x1) (int (lastWriteSize x1))) = 976"
    using q3(1) by (simp add: f1)
  have after: "view_length (queued (writeBuffer (onWriteDone enc z))) = 976"
      "queued_bytes (writeBuffer (onWriteDone enc z)) = drop 1024 data"
      "writeCount (onWriteDone enc z) = writeCount x + 1024"
      "effects (onWriteDone enc z) =
         effects x1 @
         [WriteRequest (sessionID x) (writeCount x + 1024) (enc (drop 1024 data))] @
         (if cb then [WriteSuccess (writeCount x + 1024)] else [])"
      "lastWriteSize (onWriteDone enc z) = 976"
    unfolding wd using f2 q4 by (cases cb; simp)+
  from w1 busy f1(1-3) g after len show ?thesis
    unfolding z_def by (intro exI [of _ x1]) simp
qed

lemma js_and_0 [simp]: "js_and 0 0xffffff = 0"
  by (simp add: js_and_ffffff)

lemma opened_WS_eq:
  "opened_WS = new_GoogleRelayWS\<lparr>sessionID := Some ''sid'',
      effects := [NewWebSocket (Some ''sid'') 0 0 None, OpenComplete True],
      socket := Some \<lparr>ws_id = 1, ws_readyState = 1\<rparr>\<rparr>"
  by (simp add: opened_WS_def new_GoogleRelayWS_def asyncOpen_onReady_def resumeRead_WS_def
      has_session_def perform_def Let_def socket_opens_def onSocketOpen_def requestSuccess_def
      sendWrite_WS_def Buffer_getQueuedBytes_def new_Buffer_def subarray_def Uint8Array_def)

lemma getUint32_4:
  "getUint32 (a # b # c # d # rest) = Inr (((uint a * 256 + uint b) * 256 + uint c) * 256 + uint d)"
  by (simp add: getUint32_def)

theorem C8_socket_ack_out_of_range_witness:
  "socket opened_WS = Some \<lparr>ws_id = 1, ws_readyState = 1\<rparr> \<and>
   getUint32 [1, 0, 0, 0, 9, 9] = Inr 16777216 \<and>
   effects opened_WS = [NewWebSocket (Some ''sid'') 0 0 None, OpenComplete True] \<and>
   onSocketData 1 [1, 0, 0, 0, 9, 9] 3 4 2 opened_WS
     = Inr (opened_WS\<lparr>effects := [NewWebSocket (Some ''sid'') 0 0 None, OpenComplete True, Close],
                      sessionID := None\<rparr>) \<and>
   \<not> has_session (opened_WS\<lparr>effects := effects opened_WS @ [Close], sessionID := None\<rparr>)"
proof -
  have so: "socket opened_WS = Some \<lparr>ws_id = 1, ws_readyState = 1\<rparr>"
    and ef: "effects opened_WS = [NewWebSocket (Some ''sid'') 0 0 None, OpenComplete True]"
    by (simp_all add: opened_WS_eq new_GoogleRelayWS_def)
  have id: "ws_id \<lparr>ws_id = 1, ws_readyState = 1\<rparr> = 1" by simp
  have hd: "getUint32 [1, 0, 0, 0, 9, 9] = Inr 16777216" by (simp add: getUint32_4)
  have big: "(0xffffff :: int) < 16777216" by simp
  from C8_socket_ack_out_of_range [OF so id hd big, of 3 4 2] so hd ef
  show ?thesis by simp
qed



lemma pending_WS_fields:
  "socket pending_WS = Some \<lparr>ws_id = 1, ws_readyState = 1\<rparr>"
  "writeCount pending_WS = 100" "writeBuffer pending_WS = B0" "readCount_relay pending_WS = 7"
  "backoffTimeout pending_WS = None" "onWriteSuccess pending_WS"
  "effects pending_WS = [NewWebSocket (Some ''sid'') 0 0 None, OpenComplete True]"
  by (simp_all add: pending_WS_def opened_WS_eq new_GoogleRelayWS_def)

lemma Buffer_inv_B0: "Buffer_inv B0"
  by (simp add: Buffer_inv_def Buffer_wf_def B0_def)

theorem C10_write_success_at_send_witness:
  "socket pending_WS = Some \<lparr>ws_id = 1, ws_readyState = 1\<rparr> \<and>
   Buffer_getQueuedBytes (writeBuffer pending_WS) = 2 \<and>
   backoffTimeout pending_WS = None \<and> onWriteSuccess pending_WS \<and>
   Buffer_inv (writeBuffer pending_WS) \<and> writeCount pending_WS = 100 \<and>
   effects (sendWrite_WS 5 pending_WS) =
     effects pending_WS @ [SocketSend [0, 0, 0, 7, 4, 5], WriteSuccess 100] \<and>
   writeCount (sendWrite_WS 5 pending_WS) = 100 \<and>
   map_sum id writeCount (onSocketData 1 [0, 0, 0, 102] 8 9 2 (sendWrite_WS 5 pending_WS))
     = Inr 102 \<and>
   (readyState (writeRequest pending_XHR) = 4 \<and> status (writeRequest pending_XHR) = 200 \<and>
    onWriteSuccess pending_XHR) \<and>
   writeCount pending_XHR = 0 \<and> lastWriteSize pending_XHR = 3 \<and>
   writeCount (onWriteDone encode_hex pending_XHR) = 3 \<and>
   last (effects (onWriteDone encode_hex pending_XHR)) = WriteSuccess 3"
proof -
  note f = pending_WS_fields
  let ?w = "\<lparr>ws_id = 1, ws_readyState = 1\<rparr>"
  have q: "Buffer_getQueuedBytes (writeBuffer pending_WS) = 2"
    by (simp add: f B0_def Buffer_getQueuedBytes_def)
  have h1: "socket pending_WS = Some ?w \<and> ws_readyState ?w = 1 \<and>
    Buffer_getQueuedBytes (writeBuffer pending_WS) \<noteq> 0 \<and>
    backoffTimeout pending_WS = None \<and> onWriteSuccess pending_WS \<and>
    Buffer_inv (writeBuffer pending_WS)"
    using q by (simp add: f Buffer_inv_B0)
  have rd: "fst (Buffer_read B0 maxMessageLength_WS) = [4, 5]"
    "Buffer_getQueuedBytes (snd (Buffer_read B0 maxMessageLength_WS)) = 0"
    by (simp_all add: B0_def Buffer_read_def maxMessageLength_WS_def subarray_def
        relative_index_def view_bytes_def Let_def Buffer_getQueuedBytes_def)
  have hdr: "setUint32 (js_and 7 0xffffff) = [0, 0, 0, 7]"
    by (simp add: js_and_ffffff setUint32_def)
  have so': "socket (sendWrite_WS 5 pending_WS) = Some ?w"
    by (simp add: sendWrite_WS_fields f)
  have h2: "socket (sendWrite_WS 5 pending_WS) = Some ?w \<and> ws_id ?w = 1 \<and>
    getUint32 [0, 0, 0, 102] = Inr 102 \<and> (102::int) \<le> 0xffffff"
    using so' by (simp add: getUint32_4)
  have xf: "readyState (writeRequest pending_XHR) = 4 \<and> status (writeRequest pending_XHR) = 200 \<and>
    onWriteSuccess pending_XHR" "writeCount pending_XHR = 0" "lastWriteSize pending_XHR = 3"
    by (simp_all add: pending_XHR_def write_request_done_def opened_XHR_eq new_GoogleRelayXHR_def)
  from C10_write_success_at_send [where s = pending_WS and w = ?w and now = 5] h1
  have a: "effects (sendWrite_WS 5 pending_WS) =
     effects pending_WS @ [SocketSend [0, 0, 0, 7, 4, 5], WriteSuccess 100]"
    "writeCount (sendWrite_WS 5 pending_WS) = 100"
    by (simp_all add: f rd hdr)
  from C10_write_success_at_send [where s = "sendWrite_WS 5 pending_WS" and w = ?w
        and target = 1 and data = "[0, 0, 0, 102]" and ack = 102 and now' = 9 and fresh = 2
        and now = 8] h2
  obtain s' where s': "onSocketData 1 [0, 0, 0, 102] 8 9 2 (sendWrite_WS 5 pending_WS) = Inr s'"
      "writeCount s' = writeCount (sendWrite_WS 5 pending_WS)
                         + (102 - writeCount (sendWrite_WS 5 pending_WS)) mod 2 ^ 24"
    by blast
  have b: "map_sum id writeCount (onSocketData 1 [0, 0, 0, 102] 8 9 2 (sendWrite_WS 5 pending_WS))
     = Inr 102"
    unfolding s'(1) using s'(2) by (simp add: a(2))
  from C10_write_success_at_send [where x = pending_XHR and enc = encode_hex] xf
  have c: "writeCount (onWriteDone encode_hex pending_XHR) = 3"
    "last (effects (onWriteDone encode_hex pending_XHR)) = WriteSuccess 3"
    by simp_all
  from f q Buffer_inv_B0 a b xf c show ?thesis by simp
qed

theorem C9_polling_two_sends_witness:
  "length (replicate 2000 (7::byte)) = 2000 \<and>
   backoffTimeout opened_XHR = None \<and> \<not> isRequestBusy (writeRequest opened_XHR) \<and>
   Buffer_wf (writeBuffer opened_XHR) \<and> abstraction (writeBuffer opened_XHR) = ([], 0, False) \<and>
   map_sum id effects (asyncWrite (sendWrite_XHR encode_hex) (replicate 2000 7) True opened_XHR)
     = Inr [ReadRequest (Some ''sid'') 0, OpenComplete True,
            WriteRequest (Some ''sid'') 0 (encode_hex (replicate 1024 7))] \<and>
   map_sum id (\<lambda>x. view_length (queued (writeBuffer x)))
     (write_acknowledged encode_hex
        (asyncWrite (sendWrite_XHR encode_hex) (replicate 2000 7) True opened_XHR))
     = Inr 976 \<and>
   map_sum id writeCount
     (write_acknowledged encode_hex
        (asyncWrite (sendWrite_XHR encode_hex) (replicate 2000 7) True opened_XHR))
     = Inr 1024 \<and>
   map_sum id effects
     (write_acknowledged encode_hex
        (asyncWrite (sendWrite_XHR encode_hex) (replicate 2000 7) True opened_XHR))
     = Inr [ReadRequest (Some ''sid'') 0, OpenComplete True,
            WriteRequest (Some ''sid'') 0 (encode_hex (replicate 1024 7)),
            WriteRequest (Some ''sid'') 1024 (encode_hex (replicate 976 7)),
            WriteSuccess 1024]"
proof -
  let ?d = "replicate 2000 (7::byte)"
  have len: "length ?d = 2000" by simp
  have idle: "backoffTimeout opened_XHR = None" "\<not> isRequestBusy (writeRequest opened_XHR)"
    by (simp_all add: opened_XHR_eq new_GoogleRelayXHR_def isRequestBusy_def)
  have wb: "writeBuffer opened_XHR = new_Buffer False"
    by (simp add: opened_XHR_eq new_GoogleRelayXHR_def)
  have wf: "Buffer_wf (writeBuffer opened_XHR)" unfolding wb by (rule Buffer_wf_new)
  have em: "abstraction (writeBuffer opened_XHR) = ([], 0, False)"
    unfolding wb by (rule abstraction_new)
  have xf: "effects opened_XHR = [ReadRequest (Some ''sid'') 0, OpenComplete True]"
    "sessionID opened_XHR = Some ''sid''" "writeCount opened_XHR = 0"
    by (simp_all add: opened_XHR_eq new_GoogleRelayXHR_def)
  from C9_polling_two_sends [OF len idle wf em, of encode_hex True] idle len wf em
  show ?thesis
    by (auto simp: xf write_acknowledged_def)
qed

end
